theory Spec2Isabelle
  imports
    Complex_Main
    "HOL-Library.AList"
    "HOL-Library.Multiset"
    "HOL-Library.List_Lexorder"
    "HOL-Library.Product_Lexorder"
begin

section \<open>Data model\<close>

text \<open>
  A Python \<open>str\<close> is a sequence of Unicode code points. The text normalizer works on
  code points far beyond one byte (U+3000, U+FF01 ...), so a string is modelled as the
  list of its code points, and \<open>len\<close> is \<open>length\<close>.
\<close>

type_synonym ustring = "nat list"

definition ascii :: "string \<Rightarrow> ustring" where
  "ascii s = map of_char s"

text \<open>
  The values \<open>json.load\<close> produces. A float is never computed with by the evaluator, it
  is only printed by \<open>str\<close>; it is carried as the text that \<open>str\<close> prints for it.
  A \<open>dict\<close> keeps its insertion order: it is an association list.
\<close>

datatype scalar = SStr ustring | SInt int | SFloat ustring | SBool bool | SNone

datatype tree = Scalar scalar | TList "tree list" | TDict "(ustring \<times> tree) list"

type_synonym field = "ustring \<times> scalar"

section \<open>Python string primitives\<close>

text \<open>
  \<open>str.isspace\<close> for one code point; \<open>str.strip()\<close> and the \<open>\s\<close> of \<open>re\<close> on a
  \<open>str\<close> pattern both use this set.
\<close>

definition isspace :: "nat \<Rightarrow> bool" where
  "isspace c \<longleftrightarrow>
     (0x09 \<le> c \<and> c \<le> 0x0D) \<or> (0x1C \<le> c \<and> c \<le> 0x20) \<or> c = 0x85 \<or> c = 0xA0 \<or>
     c = 0x1680 \<or> (0x2000 \<le> c \<and> c \<le> 0x200A) \<or> c = 0x2028 \<or> c = 0x2029 \<or>
     c = 0x202F \<or> c = 0x205F \<or> c = 0x3000"

definition lstrip :: "ustring \<Rightarrow> ustring" where
  "lstrip s = dropWhile isspace s"

definition rstrip :: "ustring \<Rightarrow> ustring" where
  "rstrip s = rev (dropWhile isspace (rev s))"

definition strip :: "ustring \<Rightarrow> ustring" where
  "strip s = rstrip (lstrip s)"

fun digits10 :: "nat \<Rightarrow> ustring" where
  "digits10 n = (if n < 10 then [48 + n] else digits10 (n div 10) @ [48 + n mod 10])"

declare digits10.simps [simp del]

text \<open>\<open>str(x)\<close> for a scalar \<open>x\<close>.\<close>

fun py_str :: "scalar \<Rightarrow> ustring" where
  "py_str (SStr s) = s"
| "py_str (SInt i) = (if i < 0 then 45 # digits10 (nat (- i)) else digits10 (nat i))"
| "py_str (SFloat r) = r"
| "py_str (SBool b) = (if b then ascii ''True'' else ascii ''False'')"
| "py_str SNone = ascii ''None''"

section \<open>Flattener (\<open>kie_evaluator.flatten\<close>)\<close>

fun flatten_rec :: "tree \<Rightarrow> ustring \<Rightarrow> field list" where
  "flatten_rec (TDict kvs) key =
     concat (map (\<lambda>(child_key, child_value).
       flatten_rec child_value (if key \<noteq> [] then key @ ascii ''.'' @ child_key else child_key)) kvs)"
| "flatten_rec (TList xs) key = concat (map (\<lambda>value_item. flatten_rec value_item key) xs)"
| "flatten_rec (Scalar v) key = [(key, v)]"

definition flatten :: "tree \<Rightarrow> field list" where
  "flatten data = flatten_rec data []"

section \<open>Structure normalizer (\<open>kie_evaluator.normalize_dict\<close>)\<close>

text \<open>Truth value of a Python object, as \<open>if value:\<close> tests it.\<close>

fun truthy :: "tree \<Rightarrow> bool" where
  "truthy (TDict kvs) = (kvs \<noteq> [])"
| "truthy (TList xs) = (xs \<noteq> [])"
| "truthy (Scalar (SStr s)) = (s \<noteq> [])"
| "truthy (Scalar (SInt i)) = (i \<noteq> 0)"
| "truthy (Scalar (SFloat r)) = (r \<noteq> ascii ''0.0'' \<and> r \<noteq> ascii ''-0.0'')"
| "truthy (Scalar (SBool b)) = b"
| "truthy (Scalar SNone) = False"

fun is_dict :: "tree \<Rightarrow> bool" where
  "is_dict (TDict kvs) = True"
| "is_dict _ = False"

fun is_list :: "tree \<Rightarrow> bool" where
  "is_list (TList xs) = True"
| "is_list _ = False"

text \<open>\<open>type(item) in {str, int, float}\<close>: a \<open>bool\<close> is not of type \<open>int\<close> here.\<close>

fun str_int_float :: "tree \<Rightarrow> bool" where
  "str_int_float (Scalar (SStr s)) = True"
| "str_int_float (Scalar (SInt i)) = True"
| "str_int_float (Scalar (SFloat r)) = True"
| "str_int_float _ = False"

text \<open>\<open>str(item).strip()\<close>; \<open>str\<close> is only ever called on a scalar.\<close>

fun str_strip :: "tree \<Rightarrow> ustring" where
  "str_strip (Scalar v) = strip (py_str v)"
| "str_strip _ = []"

text \<open>
  The loop body of the \<open>dict\<close> branch: \<open>vals\<close> holds \<open>normalize_dict(data[key])\<close> for
  every key of \<open>data\<close>; \<open>new_data[key] = value\<close> is an update of an insertion-ordered
  dictionary.
\<close>

definition store_key :: "(ustring \<times> tree) list \<Rightarrow> ustring \<Rightarrow> (ustring \<times> tree) list \<Rightarrow> (ustring \<times> tree) list" where
  "store_key vals key new_data =
     (case map_of vals key of
        None \<Rightarrow> new_data
      | Some value \<Rightarrow>
          if truthy value
          then AList.update key (if is_list value then value else TList [value]) new_data
          else new_data)"

definition sorted_keys :: "(ustring \<times> 'a) list \<Rightarrow> ustring list" where
  "sorted_keys data = sort_key (\<lambda>k. (length k, k)) (map fst data)"

fun normalize_dict :: "tree \<Rightarrow> tree" where
  "normalize_dict (TDict kvs) =
     (let vals = map (\<lambda>(key, v). (key, normalize_dict v)) kvs
      in TDict (fold (store_key vals) (sorted_keys kvs) []))"
| "normalize_dict (TList xs) =
     (if list_all is_dict xs
      then TList (filter truthy (map normalize_dict xs))
      else TList (map (\<lambda>item. Scalar (SStr (str_strip item)))
                   (filter (\<lambda>item. str_int_float item \<and> str_strip item \<noteq> []) xs)))"
| "normalize_dict (Scalar v) = TList [Scalar (SStr (strip (py_str v)))]"

text \<open>
  Two predicates on trees, used to state what the normalizer does. \<open>no_blank_leaf\<close>
  follows the recursion of \<open>normalize_dict\<close>: the scalars it reaches in its last branch
  (the root, or the value of a key) are not blank, that is, not empty after \<open>str\<close> and
  \<open>strip\<close>. \<open>canonical\<close> describes a normal form: a list of non-empty canonical
  dictionaries or a list of non-empty trimmed strings, and a dictionary whose keys are
  in ascending \<open>(len(key), key)\<close> order without repetition and whose values are non-empty
  canonical lists.
\<close>

fun no_blank_leaf :: "tree \<Rightarrow> bool" where
  "no_blank_leaf (Scalar v) = (strip (py_str v) \<noteq> [])"
| "no_blank_leaf (TList xs) = (list_all is_dict xs \<longrightarrow> list_all no_blank_leaf xs)"
| "no_blank_leaf (TDict kvs) = list_all (\<lambda>kv. no_blank_leaf (snd kv)) kvs"

fun trimmed_str :: "tree \<Rightarrow> bool" where
  "trimmed_str (Scalar (SStr s)) = (s \<noteq> [] \<and> strip s = s)"
| "trimmed_str _ = False"

fun canonical :: "tree \<Rightarrow> bool" where
  "canonical (Scalar v) = False"
| "canonical (TList xs) =
     (list_all (\<lambda>x. is_dict x \<and> truthy x \<and> canonical x) xs \<or> list_all trimmed_str xs)"
| "canonical (TDict kvs) =
     (sorted (map (\<lambda>k. (length k, k)) (map fst kvs)) \<and> distinct (map fst kvs) \<and>
      list_all (\<lambda>kv. is_list (snd kv) \<and> truthy (snd kv) \<and> canonical (snd kv)) kvs)"

section \<open>Matcher and scorer (\<open>kie_evaluator.cal_f1_all\<close>)\<close>

record field_info =
  f_total_tp :: nat
  f_total_fn_or_fp :: nat

text \<open>The per-document dictionary \<open>sample_error_info\<close>, and what is added to it before
  it is stored in the error map.\<close>

record sample_info =
  fp :: "field list"
  fn :: "field list"
  tp :: "field list"

record doc_error = sample_info +
  error_num :: nat
  error_info :: "(ustring \<times> nat) list"

text \<open>
  The variables of \<open>cal_f1_all\<close> that its loops update. \<open>answer\<close> and
  \<open>sample_error_info\<close> are the locals of the current document; \<open>error_map\<close> is the
  dictionary the source calls \<open>error_info\<close> (the name is taken by the key of the same
  name inside each record).
\<close>

record scorer =
  total_tp :: nat
  total_fn_or_fp :: nat
  metric_info :: "(ustring \<times> field_info) list"
  error_map :: "(ustring \<times> doc_error) list"
  answer :: "field list"
  sample_error_info :: sample_info

text \<open>\<open>if field_name not in metric_info: metric_info[field_name] = {...: 0, ...: 0}\<close>\<close>

definition touch :: "ustring \<Rightarrow> (ustring \<times> field_info) list \<Rightarrow> (ustring \<times> field_info) list" where
  "touch field_name m =
     (if map_of m field_name = None
      then AList.update field_name \<lparr>f_total_tp = 0, f_total_fn_or_fp = 0\<rparr> m
      else m)"

definition add_tp :: "ustring \<Rightarrow> (ustring \<times> field_info) list \<Rightarrow> (ustring \<times> field_info) list" where
  "add_tp field_name m =
     AList.map_entry field_name (\<lambda>i. i\<lparr>f_total_tp := f_total_tp i + 1\<rparr>) m"

definition add_fn_or_fp :: "ustring \<Rightarrow> (ustring \<times> field_info) list \<Rightarrow> (ustring \<times> field_info) list" where
  "add_fn_or_fp field_name m =
     AList.map_entry field_name (\<lambda>i. i\<lparr>f_total_fn_or_fp := f_total_fn_or_fp i + 1\<rparr>) m"

text \<open>The body of \<open>for field in pred\<close>; \<open>answer.remove(field)\<close> deletes the first
  equal element.\<close>

definition pred_step :: "field \<Rightarrow> scorer \<Rightarrow> scorer" where
  "pred_step field st =
     (let field_name = fst field;
          m = touch field_name (metric_info st);
          s = sample_error_info st
      in if field \<in> set (answer st)
         then st\<lparr>total_tp := total_tp st + 1,
                 metric_info := add_tp field_name m,
                 sample_error_info := s\<lparr>tp := tp s @ [field]\<rparr>,
                 answer := remove1 field (answer st)\<rparr>
         else st\<lparr>total_fn_or_fp := total_fn_or_fp st + 1,
                 metric_info := add_fn_or_fp field_name m,
                 sample_error_info := s\<lparr>fp := fp s @ [field]\<rparr>\<rparr>)"

text \<open>The body of \<open>for field in answer\<close>, run on what is left of \<open>answer\<close>.\<close>

definition fn_step :: "field \<Rightarrow> scorer \<Rightarrow> scorer" where
  "fn_step field st =
     (let field_name = fst field;
          m = touch field_name (metric_info st);
          s = sample_error_info st
      in st\<lparr>metric_info := add_fn_or_fp field_name m,
             sample_error_info := s\<lparr>fn := fn s @ [field]\<rparr>\<rparr>)"

text \<open>\<open>dict(Counter(xs))\<close>: keys in order of first occurrence.\<close>

definition counter :: "ustring list \<Rightarrow> (ustring \<times> nat) list" where
  "counter xs =
     fold (\<lambda>k m. AList.update k (case map_of m k of None \<Rightarrow> 1 | Some n \<Rightarrow> n + 1) m) xs []"

text \<open>Lines 106 to 112: the record of a document is stored only if it has errors.\<close>

definition record_errors :: "ustring \<Rightarrow> scorer \<Rightarrow> scorer" where
  "record_errors file_name st =
     (let s = sample_error_info st;
          sample_error_num = length (fp s) + length (fn s)
      in if sample_error_num > 0
         then st\<lparr>error_map := AList.update file_name
                   \<lparr>fp = fp s, fn = fn s, tp = tp s,
                    error_num = sample_error_num,
                    error_info = counter (map (\<lambda>x. ascii ''counter_'' @ fst x) (fn s @ fp s))\<rparr>
                   (error_map st)\<rparr>
         else st)"

text \<open>One round of \<open>for file_name, answer in answers.items()\<close>;
  \<open>preds.get(file_name, {})\<close> is the lookup with the empty dictionary as default.\<close>

definition doc_step :: "(ustring \<times> tree) list \<Rightarrow> ustring \<times> tree \<Rightarrow> scorer \<Rightarrow> scorer" where
  "doc_step preds doc st =
     (let file_name = fst doc;
          pred = flatten (normalize_dict (case map_of preds file_name of None \<Rightarrow> TDict [] | Some p \<Rightarrow> p));
          st0 = st\<lparr>answer := flatten (normalize_dict (snd doc)),
                   sample_error_info := \<lparr>fp = [], fn = [], tp = []\<rparr>\<rparr>;
          st1 = fold pred_step pred st0;
          st2 = st1\<lparr>total_fn_or_fp := total_fn_or_fp st1 + length (answer st1)\<rparr>;
          st3 = fold fn_step (answer st2) st2
      in record_errors file_name st3)"

definition init_scorer :: scorer where
  "init_scorer = \<lparr>total_tp = 0, total_fn_or_fp = 0, metric_info = [], error_map = [],
                   answer = [], sample_error_info = \<lparr>fp = [], fn = [], tp = []\<rparr>\<rparr>"

definition score_docs :: "(ustring \<times> tree) list \<Rightarrow> (ustring \<times> tree) list \<Rightarrow> scorer" where
  "score_docs preds answers = fold (doc_step preds) answers init_scorer"

text \<open>
  The summary. Python's \<open>/\<close> on these numbers is float division; it is modelled in
  exact real arithmetic, with \<open>1e-6\<close> as one millionth. \<open>sorted(..., reverse=True)\<close> is
  stable, like \<open>sort_key\<close> on the negated key.
\<close>

record field_result = field_info +
  acc :: real

definition with_acc :: "field_info \<Rightarrow> field_result" where
  "with_acc i =
     \<lparr>f_total_tp = f_total_tp i, f_total_fn_or_fp = f_total_fn_or_fp i,
      acc = real (f_total_tp i) / (real (f_total_tp i) + real (f_total_fn_or_fp i) / 2 + 1 / 10 ^ 6)\<rparr>"

definition cal_f1_all ::
  "(ustring \<times> tree) list \<Rightarrow> (ustring \<times> tree) list \<Rightarrow>
     real \<times> (ustring \<times> field_result) list \<times> (ustring \<times> doc_error) list" where
  "cal_f1_all preds answers =
     (let st = score_docs preds answers;
          metric = map (\<lambda>(field_name, i). (field_name, with_acc i)) (metric_info st);
          errors = sort_key (\<lambda>item. - int (error_num (snd item))) (error_map st);
          metric_sorted = sort_key (\<lambda>item. - int (f_total_fn_or_fp (snd item))) metric
      in (real (total_tp st) / (real (total_tp st) + real (total_fn_or_fp st) / 2 + 1 / 10 ^ 6),
          metric_sorted, errors))"

text \<open>Reading a counter of \<open>metric_info\<close>; a field that has no entry has counted nothing.\<close>

definition field_tp :: "(ustring \<times> field_info) list \<Rightarrow> ustring \<Rightarrow> nat" where
  "field_tp m field_name = (case map_of m field_name of None \<Rightarrow> 0 | Some i \<Rightarrow> f_total_tp i)"

definition field_fn_or_fp :: "(ustring \<times> field_info) list \<Rightarrow> ustring \<Rightarrow> nat" where
  "field_fn_or_fp m field_name =
     (case map_of m field_name of None \<Rightarrow> 0 | Some i \<Rightarrow> f_total_fn_or_fp i)"

text \<open>The prediction of a document as the loop reads it, flattened.\<close>

definition doc_pred :: "(ustring \<times> tree) list \<Rightarrow> ustring \<Rightarrow> field list" where
  "doc_pred preds file_name =
     flatten (normalize_dict (case map_of preds file_name of None \<Rightarrow> TDict [] | Some p \<Rightarrow> p))"

text \<open>What one document alone leaves behind: its three lists, and the record stored
  for it in the error map, if any.\<close>

definition doc_sample :: "(ustring \<times> tree) list \<Rightarrow> ustring \<times> tree \<Rightarrow> sample_info" where
  "doc_sample preds doc = sample_error_info (doc_step preds doc init_scorer)"

definition doc_record :: "(ustring \<times> tree) list \<Rightarrow> ustring \<times> tree \<Rightarrow> doc_error option" where
  "doc_record preds doc = map_of (error_map (doc_step preds doc init_scorer)) (fst doc)"

section \<open>Text normalizer (\<open>fullwidth_to_halfwidth\<close>, \<open>remove_unnecessary_spaces\<close>, \<open>normalize_func\<close>)\<close>

text \<open>\<open>sub in text\<close> and \<open>text.startswith(p)\<close> on strings.\<close>

definition starts_with :: "ustring \<Rightarrow> ustring \<Rightarrow> bool" where
  "starts_with p s = (take (length p) s = p)"

fun contains :: "ustring \<Rightarrow> ustring \<Rightarrow> bool" where
  "contains sub [] = (sub = [])"
| "contains sub (c # cs) = (starts_with sub (c # cs) \<or> contains sub cs)"

text \<open>\<open>text.replace(a, b)\<close> for a pattern \<open>a\<close> of one character, and
  \<open>text.rstrip(chars)\<close>.\<close>

definition replace_char :: "nat \<Rightarrow> ustring \<Rightarrow> ustring \<Rightarrow> ustring" where
  "replace_char a b s = concat (map (\<lambda>c. if c = a then b else [c]) s)"

definition rstrip_chars :: "nat list \<Rightarrow> ustring \<Rightarrow> ustring" where
  "rstrip_chars chars s = rev (dropWhile (\<lambda>c. c \<in> set chars) (rev s))"

text \<open>What one round of the loop of \<open>fullwidth_to_halfwidth\<close> appends to \<open>result\<close>.\<close>

definition halfwidth :: "nat \<Rightarrow> ustring" where
  "halfwidth code_point =
     (if code_point = 0x3000 then [0x0020]
      else if code_point = 0xFFE5 then [0x00A5]
      else if code_point = 0x2014 then [0x002D]
      else if code_point = 0x2103 then [0x00B0, 67]
      else if 0xFF01 \<le> code_point \<and> code_point \<le> 0xFF5E then [code_point - 0xFEE0]
      else [code_point])"

definition fullwidth_to_halfwidth :: "ustring \<Rightarrow> ustring" where
  "fullwidth_to_halfwidth text =
     (let result = concat (map halfwidth text);
          result = replace_char 0x3001 [0x2C] result;
          result = replace_char 0x2D [] result;
          result = replace_char 0x2013 [] result;
          result = replace_char 0x2019 [0x27] result
      in rstrip_chars [0x3002, 0x2E] result)"

text \<open>
  \<open>re.search\<close> for the two patterns \<open>```json\s*(.*?)\s*```\<close> and \<open>```\s*(.*?)\s*```\<close>
  with \<open>re.DOTALL\<close>, as the backtracking matcher runs them: the start positions from
  the left; after the opening, the greedy \<open>\s*\<close> from its longest match down; the lazy
  group from its shortest match up; the second greedy \<open>\s*\<close> and the closing fence. The
  result is group 1 of the first match found.
\<close>

fun first_some :: "('a \<Rightarrow> 'b option) \<Rightarrow> 'a list \<Rightarrow> 'b option" where
  "first_some f [] = None"
| "first_some f (x # xs) = (case f x of Some y \<Rightarrow> Some y | None \<Rightarrow> first_some f xs)"

definition fence :: ustring where
  "fence = [96, 96, 96]"

definition ws_then_fence :: "ustring \<Rightarrow> bool" where
  "ws_then_fence s =
     list_ex (\<lambda>j. starts_with fence (drop j s)) (rev [0..<Suc (length (takeWhile isspace s))])"

definition lazy_group :: "ustring \<Rightarrow> ustring option" where
  "lazy_group s =
     first_some (\<lambda>m. if ws_then_fence (drop m s) then Some (take m s) else None)
       [0..<Suc (length s)]"

definition after_open :: "ustring \<Rightarrow> ustring option" where
  "after_open s =
     first_some (\<lambda>k. lazy_group (drop k s)) (rev [0..<Suc (length (takeWhile isspace s))])"

definition re_search_fence :: "ustring \<Rightarrow> ustring \<Rightarrow> ustring option" where
  "re_search_fence opening text =
     first_some (\<lambda>i. if starts_with opening (drop i text)
                      then after_open (drop (i + length opening) text) else None)
       [0..<Suc (length text)]"

definition remove_unnecessary_spaces :: "ustring \<Rightarrow> ustring" where
  "remove_unnecessary_spaces text =
     (let text =
        (if contains (fence @ ascii ''json'') text
         then (case re_search_fence (fence @ ascii ''json'') text of
                 Some group1 \<Rightarrow> strip group1 | None \<Rightarrow> text)
         else if contains fence text
         then (case re_search_fence fence text of
                 Some group1 \<Rightarrow> strip group1 | None \<Rightarrow> text)
         else text)
      in filter (\<lambda>c. \<not> isspace c) text)"

text \<open>\<open>evaluate_results.normalize_func\<close> on a string (\<open>str\<close> of a string is the string).\<close>

definition normalize_func :: "ustring \<Rightarrow> ustring" where
  "normalize_func text = remove_unnecessary_spaces (fullwidth_to_halfwidth text)"

section \<open>Loading predictions (\<open>evaluate_results.load_predictions\<close>)\<close>

definition extract_image_name :: "ustring \<Rightarrow> ustring" where
  "extract_image_name url = (if starts_with (ascii ''images/'') url then drop 7 url else url)"

text \<open>
  \<open>"_parse_error" in model_result\<close>: a key test on a dictionary, an element test on a
  list, a substring test on a string; on any other value it raises \<open>TypeError\<close>, which
  is \<open>None\<close> here.
\<close>

fun has_parse_error :: "tree \<Rightarrow> bool option" where
  "has_parse_error (TDict kvs) = Some (ascii ''_parse_error'' \<in> fst ` set kvs)"
| "has_parse_error (TList xs) = Some (Scalar (SStr (ascii ''_parse_error'')) \<in> set xs)"
| "has_parse_error (Scalar (SStr s)) = Some (contains (ascii ''_parse_error'') s)"
| "has_parse_error (Scalar v) = None"

text \<open>
  The warning of line 50, \<open>print(f"Warning: {dataset}/{image_name} has error:
  {data['error']}")\<close>, runs inside the \<open>try\<close>. \<open>print\<close> raises \<open>UnicodeEncodeError\<close> when
  standard output cannot encode the text, and \<open>except Exception\<close> then skips the record.
  Whether the text can be written depends on the encoding of standard output, which is
  not in the source: \<open>load_record\<close> takes it as the parameter \<open>prints\<close>, told the three
  values that are formatted.

  \<open>utf8_prints\<close> is the parameter for a standard output that encodes as strict UTF-8,
  which refuses exactly the surrogate code points. \<open>str\<close> of a string is the string
  itself; \<open>str\<close> of any other value writes the strings inside it with \<open>repr\<close>, which
  escapes surrogates, so only a \<open>dataset\<close> or an \<open>error\<close> that is itself a string, and
  the image name, can bring a surrogate into the text.
\<close>

definition surrogate :: "nat \<Rightarrow> bool" where
  "surrogate c \<longleftrightarrow> 0xD800 \<le> c \<and> c \<le> 0xDFFF"

fun shown_raw :: "tree \<Rightarrow> ustring" where
  "shown_raw (Scalar (SStr s)) = s"
| "shown_raw _ = []"

definition utf8_prints :: "tree \<Rightarrow> ustring \<Rightarrow> tree \<Rightarrow> bool" where
  "utf8_prints dataset image_name err =
     (\<not> list_ex surrogate (shown_raw dataset @ image_name @ shown_raw err))"

text \<open>
  The body of the loop for one line that \<open>json.loads\<close> has parsed into \<open>data\<close>. Every
  \<open>continue\<close>, and every exception (all are caught by \<open>except Exception\<close>: \<open>data\<close> without
  \<open>get\<close>, a \<open>url\<close> without \<open>startswith\<close>, a warning that cannot be printed, a failed
  membership test, an unhashable \<open>dataset\<close>), is \<open>Skip\<close>;
  \<open>Keep dataset image_name model_result\<close> is the assignment
  \<open>predictions[dataset][image_name] = model_result\<close>. The two other warnings (lines 53
  and 57) are followed by \<open>continue\<close>, so the record is skipped whether they print or
  raise. \<open>py_get\<close> is \<open>data.get(key, default)\<close>; \<open>store_result\<close> is lines 52 to 60.
\<close>

definition py_get :: "(ustring \<times> tree) list \<Rightarrow> ustring \<Rightarrow> tree \<Rightarrow> tree" where
  "py_get kvs key dflt = (case map_of kvs key of None \<Rightarrow> dflt | Some v \<Rightarrow> v)"

datatype loaded = Skip | Keep tree ustring tree

definition store_result :: "tree \<Rightarrow> ustring \<Rightarrow> tree option \<Rightarrow> loaded" where
  "store_result dataset image_name found =
     (case found of
        None \<Rightarrow> Skip
      | Some (Scalar SNone) \<Rightarrow> Skip
      | Some model_result \<Rightarrow>
          (case has_parse_error model_result of
             None \<Rightarrow> Skip
           | Some True \<Rightarrow> Skip
           | Some False \<Rightarrow>
               if is_dict dataset \<or> is_list dataset then Skip
               else Keep dataset image_name model_result))"

definition load_record :: "(tree \<Rightarrow> ustring \<Rightarrow> tree \<Rightarrow> bool) \<Rightarrow> tree \<Rightarrow> loaded" where
  "load_record prints data =
     (case data of
        TDict kvs \<Rightarrow>
          (let dataset = py_get kvs (ascii ''dataset'') (Scalar (SStr (ascii ''unknown'')));
               url = py_get kvs (ascii ''url'') (Scalar (SStr []))
           in if \<not> truthy url then Skip
              else (case url of
                      Scalar (SStr u) \<Rightarrow>
                        (let image_name = extract_image_name u;
                             model_result = map_of kvs (ascii ''model_result'')
                         in (case map_of kvs (ascii ''error'') of
                               None \<Rightarrow> store_result dataset image_name model_result
                             | Some err \<Rightarrow>
                                 if prints dataset image_name err
                                 then store_result dataset image_name model_result
                                 else Skip))
                    | _ \<Rightarrow> Skip))
      | _ \<Rightarrow> Skip)"

section \<open>Cross-dataset summary (\<open>evaluate_results.main\<close>)\<close>

text \<open>The \<open>summary\<close> of one dataset, and the \<open>_summary\<close> that \<open>main\<close> adds when
  \<open>len(all_results) > 1\<close>. The sums are exact, as the division is.\<close>

record summary =
  f1_score :: real
  total_predictions :: nat
  total_ground_truth :: nat
  matched_samples :: nat

record overall =
  num_datasets :: nat
  average_f1_score :: real
  all_predictions :: nat
  all_ground_truth :: nat
  total_matched_samples :: nat

definition main_summary :: "(ustring \<times> summary) list \<Rightarrow> overall option" where
  "main_summary all_results =
     (if length all_results > 1
      then (let total_f1 = sum_list (map (\<lambda>r. f1_score (snd r)) all_results);
                total_pred = sum_list (map (\<lambda>r. total_predictions (snd r)) all_results);
                total_gt = sum_list (map (\<lambda>r. total_ground_truth (snd r)) all_results);
                total_matched = sum_list (map (\<lambda>r. matched_samples (snd r)) all_results);
                avg_f1 = total_f1 / real (length all_results)
            in Some \<lparr>num_datasets = length all_results, average_f1_score = avg_f1,
                     all_predictions = total_pred, all_ground_truth = total_gt,
                     total_matched_samples = total_matched\<rparr>)
      else None)"

section \<open>Evaluation helpers\<close>

lemmas scorer_defs =
  score_docs_def doc_step_def init_scorer_def flatten_def sorted_keys_def store_key_def
  ascii_def strip_def lstrip_def rstrip_def isspace_def pred_step_def fn_step_def
  record_errors_def counter_def touch_def add_tp_def add_fn_or_fp_def Let_def

section \<open>The matching loop\<close>

lemma pred_step_hit:
  "field \<in> set (answer st) \<Longrightarrow>
     answer (pred_step field st) = remove1 field (answer st) \<and>
     tp (sample_error_info (pred_step field st)) = tp (sample_error_info st) @ [field] \<and>
     fp (sample_error_info (pred_step field st)) = fp (sample_error_info st) \<and>
     fn (sample_error_info (pred_step field st)) = fn (sample_error_info st) \<and>
     total_tp (pred_step field st) = total_tp st + 1 \<and>
     total_fn_or_fp (pred_step field st) = total_fn_or_fp st \<and>
     error_map (pred_step field st) = error_map st"
  by (simp add: pred_step_def Let_def)

lemma pred_step_miss:
  "field \<notin> set (answer st) \<Longrightarrow>
     answer (pred_step field st) = answer st \<and>
     tp (sample_error_info (pred_step field st)) = tp (sample_error_info st) \<and>
     fp (sample_error_info (pred_step field st)) = fp (sample_error_info st) @ [field] \<and>
     fn (sample_error_info (pred_step field st)) = fn (sample_error_info st) \<and>
     total_tp (pred_step field st) = total_tp st \<and>
     total_fn_or_fp (pred_step field st) = total_fn_or_fp st + 1 \<and>
     error_map (pred_step field st) = error_map st"
  by (simp add: pred_step_def Let_def)

lemma inter_step_hit:
  "x \<in># G \<Longrightarrow> add_mset x (P \<inter># (G - {#x#})) = add_mset x P \<inter># G"
  by (metis insert_DiffM add_mset_inter_add_mset)

lemma diff_step_hit:
  "x \<in># G \<Longrightarrow> P - (G - {#x#}) = add_mset x P - G"
  by (metis add_mset_diff_bothsides insert_DiffM)

lemma inter_step_miss:
  "x \<notin># G \<Longrightarrow> add_mset x P \<inter># G = P \<inter># G"
  by (simp add: inter_add_left1)

lemma diff_step_miss:
  "x \<notin># G \<Longrightarrow> add_mset x P - G = add_mset x (P - G)"
  by (metis diff_add_mset_swap)

lemma diff_step_miss':
  "x \<notin># G \<Longrightarrow> G - add_mset x P = G - P"
  by (metis diff_single_trivial add_mset_add_single diff_diff_add union_commute)

text \<open>What the whole loop over \<open>pred\<close> computes, from any state.\<close>

lemma pred_loop_mset:
  "mset (answer (fold pred_step P st)) = mset (answer st) - mset P \<and>
   mset (tp (sample_error_info (fold pred_step P st))) =
     mset (tp (sample_error_info st)) + (mset P \<inter># mset (answer st)) \<and>
   mset (fp (sample_error_info (fold pred_step P st))) =
     mset (fp (sample_error_info st)) + (mset P - mset (answer st)) \<and>
   fn (sample_error_info (fold pred_step P st)) = fn (sample_error_info st) \<and>
   total_tp (fold pred_step P st) = total_tp st + size (mset P \<inter># mset (answer st)) \<and>
   total_fn_or_fp (fold pred_step P st) = total_fn_or_fp st + size (mset P - mset (answer st)) \<and>
   error_map (fold pred_step P st) = error_map st"
proof (induction P arbitrary: st)
  case Nil
  show ?case by simp
next
  case (Cons x P)
  note ih = Cons.IH [of "pred_step x st"]
  show ?case
  proof (cases "x \<in> set (answer st)")
    case True
    then have m: "x \<in># mset (answer st)" by simp
    show ?thesis
      using ih m
      by (simp add: pred_step_hit [OF True] inter_step_hit [symmetric] diff_step_hit [symmetric])
  next
    case False
    then have m: "x \<notin># mset (answer st)" by simp
    show ?thesis
      using ih
      by (simp add: pred_step_miss [OF False] inter_step_miss [OF m] diff_step_miss [OF m]
          diff_step_miss' [OF m])
  qed
qed

lemma scenario_C:
  "score_docs
     [(ascii ''doc'', TDict [(ascii ''items'', TList [Scalar (SStr (ascii ''a''))])])]
     [(ascii ''doc'', TDict [(ascii ''items'',
         TList [Scalar (SStr (ascii ''a'')), Scalar (SStr (ascii ''a''))])])]
   = \<lparr>total_tp = 1, total_fn_or_fp = 1,
      metric_info = [(ascii ''items'', \<lparr>f_total_tp = 1, f_total_fn_or_fp = 1\<rparr>)],
      error_map = [(ascii ''doc'',
        \<lparr>fp = [], fn = [(ascii ''items'', SStr (ascii ''a''))],
         tp = [(ascii ''items'', SStr (ascii ''a''))], error_num = 1,
         error_info = [(ascii ''counter_items'', 1)]\<rparr>)],
      answer = [(ascii ''items'', SStr (ascii ''a''))],
      sample_error_info = \<lparr>fp = [], fn = [(ascii ''items'', SStr (ascii ''a''))],
         tp = [(ascii ''items'', SStr (ascii ''a''))]\<rparr>\<rparr>"
  by (simp add: scorer_defs)

text \<open>
  Claim C1. Matching is greedy and duplicate-aware. One round of the loop over the
  flattened prediction \<open>P\<close>: if the pair is in what is left of the ground truth \<open>G\<close>
  (the list \<open>answer\<close>), its first occurrence and nothing else is removed from \<open>G\<close> and the
  pair is one more true positive; otherwise \<open>G\<close> is unchanged and the pair is one more
  false positive. Over the whole of \<open>P\<close>, so the true positives are the multiset
  intersection of \<open>P\<close> and \<open>G\<close> (duplicates matched one for one), the false positives are
  \<open>P - G\<close>, and \<open>G - P\<close> is left over as false negatives. For the ground truth
  \<open>{"items": ["a", "a"]}\<close> and the prediction \<open>{"items": ["a"]}\<close> the document has exactly
  one true positive, no false positive and one false negative.
\<close>

theorem C1_greedy_matching:
  "(field \<in> set (answer st) \<longrightarrow>
      answer (pred_step field st) = remove1 field (answer st) \<and>
      length (answer (pred_step field st)) + 1 = length (answer st) \<and>
      tp (sample_error_info (pred_step field st)) = tp (sample_error_info st) @ [field] \<and>
      fp (sample_error_info (pred_step field st)) = fp (sample_error_info st) \<and>
      total_tp (pred_step field st) = total_tp st + 1 \<and>
      total_fn_or_fp (pred_step field st) = total_fn_or_fp st) \<and>
   (field \<notin> set (answer st) \<longrightarrow>
      answer (pred_step field st) = answer st \<and>
      tp (sample_error_info (pred_step field st)) = tp (sample_error_info st) \<and>
      fp (sample_error_info (pred_step field st)) = fp (sample_error_info st) @ [field] \<and>
      total_tp (pred_step field st) = total_tp st \<and>
      total_fn_or_fp (pred_step field st) = total_fn_or_fp st + 1) \<and>
   mset (tp (sample_error_info (fold pred_step P st))) =
     mset (tp (sample_error_info st)) + (mset P \<inter># mset (answer st)) \<and>
   mset (fp (sample_error_info (fold pred_step P st))) =
     mset (fp (sample_error_info st)) + (mset P - mset (answer st)) \<and>
   mset (answer (fold pred_step P st)) = mset (answer st) - mset P \<and>
   total_tp (fold pred_step P st) = total_tp st + size (mset P \<inter># mset (answer st)) \<and>
   (let st' = score_docs
        [(ascii ''doc'', TDict [(ascii ''items'', TList [Scalar (SStr (ascii ''a''))])])]
        [(ascii ''doc'', TDict [(ascii ''items'',
            TList [Scalar (SStr (ascii ''a'')), Scalar (SStr (ascii ''a''))])])]
    in total_tp st' = 1 \<and> total_fn_or_fp st' = 1 \<and>
       tp (sample_error_info st') = [(ascii ''items'', SStr (ascii ''a''))] \<and>
       fp (sample_error_info st') = [] \<and>
       fn (sample_error_info st') = [(ascii ''items'', SStr (ascii ''a''))])"
proof -
  have hit: "field \<in> set (answer st) \<Longrightarrow>
      length (answer (pred_step field st)) + 1 = length (answer st)"
    by (simp add: pred_step_hit length_remove1) (cases "answer st"; simp)
  show ?thesis
    unfolding scenario_C Let_def
    using pred_step_hit [of field st] pred_step_miss [of field st] hit pred_loop_mset [of P st]
    by simp
qed

theorem C1_greedy_matching_witness:
  "(let st = init_scorer\<lparr>answer := [(ascii ''k'', SStr (ascii ''a'')), (ascii ''k'', SStr (ascii ''a''))]\<rparr>
    in (ascii ''k'', SStr (ascii ''a'')) \<in> set (answer st) \<and>
       answer (pred_step (ascii ''k'', SStr (ascii ''a'')) st) = [(ascii ''k'', SStr (ascii ''a''))] \<and>
       total_tp (pred_step (ascii ''k'', SStr (ascii ''a'')) st) = 1 \<and>
       (ascii ''k'', SStr (ascii ''b'')) \<notin> set (answer st) \<and>
       answer (pred_step (ascii ''k'', SStr (ascii ''b'')) st) = answer st \<and>
       total_fn_or_fp (pred_step (ascii ''k'', SStr (ascii ''b'')) st) = 1)"
  using C1_greedy_matching
      [of "(ascii ''k'', SStr (ascii ''a''))"
          "init_scorer\<lparr>answer := [(ascii ''k'', SStr (ascii ''a'')), (ascii ''k'', SStr (ascii ''a''))]\<rparr>" "[]"]
    C1_greedy_matching
      [of "(ascii ''k'', SStr (ascii ''b''))"
          "init_scorer\<lparr>answer := [(ascii ''k'', SStr (ascii ''a'')), (ascii ''k'', SStr (ascii ''a''))]\<rparr>" "[]"]
  by (simp add: init_scorer_def ascii_def Let_def)

section \<open>Counters per field\<close>

lemma field_tp_touch [simp]: "field_tp (touch n m) name = field_tp m name"
  by (auto simp: field_tp_def touch_def update_conv' split: option.splits)

lemma field_fn_or_fp_touch [simp]: "field_fn_or_fp (touch n m) name = field_fn_or_fp m name"
  by (auto simp: field_fn_or_fp_def touch_def update_conv' split: option.splits)

lemma map_of_touch_same: "map_of (touch n m) n \<noteq> None"
  by (auto simp: touch_def update_conv')

lemma field_tp_add_tp:
  "field_tp (add_tp n (touch n m)) name = field_tp m name + (if name = n then 1 else 0)"
  using map_of_touch_same [of n m] field_tp_touch [of n m name]
  by (auto simp: field_tp_def add_tp_def map_of_map_entry split: option.splits)

lemma field_fn_or_fp_add_tp:
  "field_fn_or_fp (add_tp n (touch n m)) name = field_fn_or_fp m name"
  using map_of_touch_same [of n m] field_fn_or_fp_touch [of n m name]
  by (auto simp: field_fn_or_fp_def add_tp_def map_of_map_entry split: option.splits)

lemma field_tp_add_fn_or_fp:
  "field_tp (add_fn_or_fp n (touch n m)) name = field_tp m name"
  using map_of_touch_same [of n m] field_tp_touch [of n m name]
  by (auto simp: field_tp_def add_fn_or_fp_def map_of_map_entry split: option.splits)

lemma field_fn_or_fp_add_fn_or_fp:
  "field_fn_or_fp (add_fn_or_fp n (touch n m)) name = field_fn_or_fp m name + (if name = n then 1 else 0)"
  using map_of_touch_same [of n m] field_fn_or_fp_touch [of n m name]
  by (auto simp: field_fn_or_fp_def add_fn_or_fp_def map_of_map_entry split: option.splits)

lemma pred_step_metric:
  "field_tp (metric_info (pred_step f st)) name =
     field_tp (metric_info st) name + (if f \<in> set (answer st) \<and> fst f = name then 1 else 0) \<and>
   field_fn_or_fp (metric_info (pred_step f st)) name =
     field_fn_or_fp (metric_info st) name + (if f \<notin> set (answer st) \<and> fst f = name then 1 else 0)"
  by (auto simp: pred_step_def Let_def field_tp_add_tp field_fn_or_fp_add_tp field_tp_add_fn_or_fp
      field_fn_or_fp_add_fn_or_fp)

lemma fn_step_fields:
  "answer (fn_step f st) = answer st \<and>
   total_tp (fn_step f st) = total_tp st \<and>
   total_fn_or_fp (fn_step f st) = total_fn_or_fp st \<and>
   error_map (fn_step f st) = error_map st \<and>
   tp (sample_error_info (fn_step f st)) = tp (sample_error_info st) \<and>
   fp (sample_error_info (fn_step f st)) = fp (sample_error_info st) \<and>
   fn (sample_error_info (fn_step f st)) = fn (sample_error_info st) @ [f] \<and>
   field_tp (metric_info (fn_step f st)) name = field_tp (metric_info st) name \<and>
   field_fn_or_fp (metric_info (fn_step f st)) name =
     field_fn_or_fp (metric_info st) name + (if fst f = name then 1 else 0)"
  by (auto simp: fn_step_def Let_def field_tp_add_fn_or_fp field_fn_or_fp_add_fn_or_fp)

lemma fn_loop:
  "answer (fold fn_step F st) = answer st \<and>
   total_tp (fold fn_step F st) = total_tp st \<and>
   total_fn_or_fp (fold fn_step F st) = total_fn_or_fp st \<and>
   error_map (fold fn_step F st) = error_map st \<and>
   tp (sample_error_info (fold fn_step F st)) = tp (sample_error_info st) \<and>
   fp (sample_error_info (fold fn_step F st)) = fp (sample_error_info st) \<and>
   fn (sample_error_info (fold fn_step F st)) = fn (sample_error_info st) @ F \<and>
   field_tp (metric_info (fold fn_step F st)) name = field_tp (metric_info st) name \<and>
   field_fn_or_fp (metric_info (fold fn_step F st)) name =
     field_fn_or_fp (metric_info st) name + count_list (map fst F) name"
proof (induction F arbitrary: st)
  case Nil
  show ?case by simp
next
  case (Cons f F)
  show ?case
    using Cons.IH [of "fn_step f st"] by (simp add: fn_step_fields)
qed

text \<open>The loop over \<open>pred\<close> when no pair of it is in the ground truth.\<close>

lemma pred_loop_disjoint:
  "set P \<inter> set (answer st) = {} \<Longrightarrow>
   answer (fold pred_step P st) = answer st \<and>
   total_tp (fold pred_step P st) = total_tp st \<and>
   total_fn_or_fp (fold pred_step P st) = total_fn_or_fp st + length P \<and>
   error_map (fold pred_step P st) = error_map st \<and>
   tp (sample_error_info (fold pred_step P st)) = tp (sample_error_info st) \<and>
   fp (sample_error_info (fold pred_step P st)) = fp (sample_error_info st) @ P \<and>
   fn (sample_error_info (fold pred_step P st)) = fn (sample_error_info st) \<and>
   field_tp (metric_info (fold pred_step P st)) name = field_tp (metric_info st) name \<and>
   field_fn_or_fp (metric_info (fold pred_step P st)) name =
     field_fn_or_fp (metric_info st) name + count_list (map fst P) name"
proof (induction P arbitrary: st)
  case Nil
  show ?case by simp
next
  case (Cons f P)
  then have m: "f \<notin> set (answer st)" by auto
  have d: "set P \<inter> set (answer (pred_step f st)) = {}"
    using Cons.prems by (auto simp: pred_step_miss [OF m])
  show ?case
    using Cons.IH [OF d] m by (simp add: pred_step_miss [OF m] pred_step_metric)
qed


text \<open>The stages of one document: reset, loop over \<open>pred\<close>, count what is left of
  \<open>answer\<close>, loop over it, store the record.\<close>

lemma doc_step_stages:
  assumes "st0 = st\<lparr>answer := flatten (normalize_dict (snd doc)),
                     sample_error_info := \<lparr>fp = [], fn = [], tp = []\<rparr>\<rparr>"
    and "st1 = fold pred_step (doc_pred preds (fst doc)) st0"
    and "st2 = st1\<lparr>total_fn_or_fp := total_fn_or_fp st1 + length (answer st1)\<rparr>"
  shows "doc_step preds doc st = record_errors (fst doc) (fold fn_step (answer st1) st2)"
  using assms by (simp add: doc_step_def doc_pred_def Let_def)

lemma record_errors_fields:
  "total_tp (record_errors k st) = total_tp st \<and>
   total_fn_or_fp (record_errors k st) = total_fn_or_fp st \<and>
   metric_info (record_errors k st) = metric_info st \<and>
   answer (record_errors k st) = answer st \<and>
   sample_error_info (record_errors k st) = sample_error_info st"
  by (simp add: record_errors_def Let_def)

lemma record_errors_none:
  "fp (sample_error_info st) = [] \<Longrightarrow> fn (sample_error_info st) = [] \<Longrightarrow>
     record_errors k st = st"
  by (simp add: record_errors_def Let_def)

text \<open>A document whose flattened ground truth is empty.\<close>

lemma doc_step_empty_answer:
  assumes "flatten (normalize_dict (snd doc)) = []"
  shows "total_tp (doc_step preds doc st) = total_tp st"
    and "total_fn_or_fp (doc_step preds doc st) =
           total_fn_or_fp st + length (doc_pred preds (fst doc))"
    and "tp (sample_error_info (doc_step preds doc st)) = []"
    and "fn (sample_error_info (doc_step preds doc st)) = []"
    and "fp (sample_error_info (doc_step preds doc st)) = doc_pred preds (fst doc)"
    and "field_tp (metric_info (doc_step preds doc st)) name = field_tp (metric_info st) name"
    and "field_fn_or_fp (metric_info (doc_step preds doc st)) name =
           field_fn_or_fp (metric_info st) name + count_list (map fst (doc_pred preds (fst doc))) name"
proof -
  define st0 where "st0 = st\<lparr>answer := flatten (normalize_dict (snd doc)),
                     sample_error_info := \<lparr>fp = [], fn = [], tp = []\<rparr>\<rparr>"
  define st1 where "st1 = fold pred_step (doc_pred preds (fst doc)) st0"
  define st2 where "st2 = st1\<lparr>total_fn_or_fp := total_fn_or_fp st1 + length (answer st1)\<rparr>"
  note u = doc_step_stages [OF st0_def st1_def st2_def]
  have a0: "answer st0 = []"
    using assms by (simp add: st0_def)
  then have d: "set (doc_pred preds (fst doc)) \<inter> set (answer st0) = {}"
    by simp
  note l = pred_loop_disjoint [OF d, of name, folded st1_def]
  have a1: "answer st1 = []"
    using l a0 by simp
  show "total_tp (doc_step preds doc st) = total_tp st"
    using l by (simp add: u a1 record_errors_fields st2_def st0_def)
  show "total_fn_or_fp (doc_step preds doc st) =
           total_fn_or_fp st + length (doc_pred preds (fst doc))"
    using l by (simp add: u a1 record_errors_fields st2_def st0_def)
  show "tp (sample_error_info (doc_step preds doc st)) = []"
    using l by (simp add: u a1 record_errors_fields st2_def st0_def)
  show "fn (sample_error_info (doc_step preds doc st)) = []"
    using l by (simp add: u a1 record_errors_fields st2_def st0_def)
  show "fp (sample_error_info (doc_step preds doc st)) = doc_pred preds (fst doc)"
    using l by (simp add: u a1 record_errors_fields st2_def st0_def)
  show "field_tp (metric_info (doc_step preds doc st)) name = field_tp (metric_info st) name"
    using l by (simp add: u a1 record_errors_fields st2_def st0_def)
  show "field_fn_or_fp (metric_info (doc_step preds doc st)) name =
           field_fn_or_fp (metric_info st) name + count_list (map fst (doc_pred preds (fst doc))) name"
    using l by (simp add: u a1 record_errors_fields st2_def st0_def)
qed

lemma doc_step_empty_both:
  assumes "flatten (normalize_dict (snd doc)) = []" and "doc_pred preds (fst doc) = []"
  shows "metric_info (doc_step preds doc st) = metric_info st"
    and "error_map (doc_step preds doc st) = error_map st"
  using assms by (simp_all add: doc_step_def doc_pred_def Let_def record_errors_none record_errors_fields)

text \<open>
  Claim C2, as the code has it. A document whose ground truth normalizes to the empty
  form \<open>{}\<close> adds no true positive and no false negative, to the totals or to any
  field; but every flattened pair of its prediction is counted as a false positive:
  \<open>total_fn_or_fp\<close> grows by the number of pairs, and the counter of each field by the
  number of pairs on that path. Only when the prediction flattens to nothing as well
  does the document leave every counter and the error map as they were.
\<close>

theorem C2_empty_ground_truth:
  assumes "normalize_dict (snd doc) = TDict []"
  shows "total_tp (doc_step preds doc st) = total_tp st \<and>
         total_fn_or_fp (doc_step preds doc st) =
           total_fn_or_fp st + length (doc_pred preds (fst doc)) \<and>
         tp (sample_error_info (doc_step preds doc st)) = [] \<and>
         fn (sample_error_info (doc_step preds doc st)) = [] \<and>
         fp (sample_error_info (doc_step preds doc st)) = doc_pred preds (fst doc) \<and>
         field_tp (metric_info (doc_step preds doc st)) name = field_tp (metric_info st) name \<and>
         field_fn_or_fp (metric_info (doc_step preds doc st)) name =
           field_fn_or_fp (metric_info st) name +
           count_list (map fst (doc_pred preds (fst doc))) name \<and>
         (doc_pred preds (fst doc) = [] \<longrightarrow>
            metric_info (doc_step preds doc st) = metric_info st \<and>
            error_map (doc_step preds doc st) = error_map st)"
proof -
  have e: "flatten (normalize_dict (snd doc)) = []"
    using assms by (simp add: flatten_def)
  show ?thesis
    using doc_step_empty_answer [OF e] doc_step_empty_both [OF e]
    by simp
qed

theorem C2_empty_ground_truth_witness:
  "normalize_dict (snd (ascii ''doc'', TDict [])) = TDict [] \<and>
   total_tp (doc_step [] (ascii ''doc'', TDict []) init_scorer) = 0 \<and>
   total_fn_or_fp (doc_step [] (ascii ''doc'', TDict []) init_scorer) = 0 \<and>
   metric_info (doc_step [] (ascii ''doc'', TDict []) init_scorer) = [] \<and>
   error_map (doc_step [] (ascii ''doc'', TDict []) init_scorer) = []"
proof -
  have h: "normalize_dict (snd (ascii ''doc'', TDict [])) = TDict []"
    by (simp add: sorted_keys_def)
  have p: "doc_pred [] (fst (ascii ''doc'', TDict [])) = []"
    by (simp add: doc_pred_def flatten_def sorted_keys_def)
  show ?thesis
    using h p C2_empty_ground_truth [OF h, of "[]" init_scorer "[]"]
    by (simp add: init_scorer_def)
qed

text \<open>
  The claim as the specification words it fails: with the ground truth \<open>{}\<close> and the
  prediction \<open>{"a": "x"}\<close> the document raises \<open>total_fn_or_fp\<close> from 0 to 1.
\<close>

theorem C2_counterexample:
  "normalize_dict (TDict []) = TDict [] \<and>
   total_fn_or_fp init_scorer = 0 \<and>
   total_fn_or_fp
     (doc_step [(ascii ''doc'', TDict [(ascii ''a'', Scalar (SStr (ascii ''x'')))])]
        (ascii ''doc'', TDict []) init_scorer) = 1 \<and>
   field_fn_or_fp
     (metric_info
       (doc_step [(ascii ''doc'', TDict [(ascii ''a'', Scalar (SStr (ascii ''x'')))])]
          (ascii ''doc'', TDict []) init_scorer)) (ascii ''a'') = 1"
  by (simp add: scorer_defs field_fn_or_fp_def)

section \<open>The loop over the documents\<close>

lemma doc_step_cong:
  "map_of preds (fst doc) = map_of preds' (fst doc) \<Longrightarrow> doc_step preds doc st = doc_step preds' doc st"
  by (simp add: doc_step_def)

lemma docs_loop_cong:
  "(\<And>k. k \<in> fst ` set answers \<Longrightarrow> map_of preds k = map_of preds' k) \<Longrightarrow>
     fold (doc_step preds) answers st = fold (doc_step preds') answers st"
proof (induction answers arbitrary: st)
  case Nil
  show ?case by simp
next
  case (Cons d ds)
  have a: "doc_step preds d st = doc_step preds' d st"
    by (rule doc_step_cong) (rule Cons.prems, simp)
  have b: "fold (doc_step preds) ds st' = fold (doc_step preds') ds st'" for st'
    by (rule Cons.IH) (rule Cons.prems, simp)
  show ?case by (simp add: a b)
qed

lemma record_errors_keys:
  "fst ` set (error_map (record_errors k st)) \<subseteq> insert k (fst ` set (error_map st))"
  by (auto simp: record_errors_def Let_def dom_update)

lemma fn_loop_error_map: "error_map (fold fn_step F st) = error_map st"
  using fn_loop [of F st "[]"] by simp

lemma pred_loop_error_map: "error_map (fold pred_step P st) = error_map st"
  using pred_loop_mset [of P st] by simp

lemma doc_step_keys:
  "fst ` set (error_map (doc_step preds doc st)) \<subseteq> insert (fst doc) (fst ` set (error_map st))"
proof -
  define st0 where "st0 = st\<lparr>answer := flatten (normalize_dict (snd doc)),
                     sample_error_info := \<lparr>fp = [], fn = [], tp = []\<rparr>\<rparr>"
  define st1 where "st1 = fold pred_step (doc_pred preds (fst doc)) st0"
  define st2 where "st2 = st1\<lparr>total_fn_or_fp := total_fn_or_fp st1 + length (answer st1)\<rparr>"
  note u = doc_step_stages [OF st0_def st1_def st2_def]
  have "error_map (fold fn_step (answer st1) st2) = error_map st"
    by (simp add: fn_loop_error_map st2_def st1_def pred_loop_error_map st0_def)
  then show ?thesis
    using record_errors_keys [of "fst doc" "fold fn_step (answer st1) st2"] by (simp add: u)
qed

lemma docs_loop_keys:
  "fst ` set (error_map (fold (doc_step preds) answers st)) \<subseteq>
     fst ` set answers \<union> fst ` set (error_map st)"
proof (induction answers arbitrary: st)
  case Nil
  show ?case by simp
next
  case (Cons d ds)
  show ?case
    using Cons.IH [of "doc_step preds d st"] doc_step_keys [of preds d st] by auto
qed

lemma score_docs_keys:
  "fst ` set (error_map (score_docs preds answers)) \<subseteq> fst ` set answers"
  using docs_loop_keys [of preds answers init_scorer] by (simp add: score_docs_def init_scorer_def)

lemma cal_f1_all_errors:
  "snd (snd (cal_f1_all preds answers)) =
     sort_key (\<lambda>item. - int (error_num (snd item))) (error_map (score_docs preds answers))"
  by (simp add: cal_f1_all_def Let_def)

text \<open>
  Claim C6. The loop runs over the keys of the ground truth only. A document key that
  is in the predictions and not in the ground truth contributes nothing: the run of the
  loops, and with it every total, every per-field counter and the whole result of
  \<open>cal_f1_all\<close>, is the one obtained with that key deleted from the predictions; and the
  key is not a key of the per-document error map.
\<close>

theorem C6_ground_truth_keys_only:
  assumes "k \<in> fst ` set preds" and "k \<notin> fst ` set answers"
  shows "score_docs preds answers = score_docs (AList.delete k preds) answers \<and>
         cal_f1_all preds answers = cal_f1_all (AList.delete k preds) answers \<and>
         k \<notin> fst ` set (error_map (score_docs preds answers)) \<and>
         k \<notin> fst ` set (snd (snd (cal_f1_all preds answers)))"
proof -
  have s: "score_docs preds answers = score_docs (AList.delete k preds) answers"
    unfolding score_docs_def
    by (rule docs_loop_cong) (use assms(2) in \<open>auto simp: delete_conv'\<close>)
  have c: "cal_f1_all preds answers = cal_f1_all (AList.delete k preds) answers"
    by (simp add: cal_f1_all_def s)
  have e: "k \<notin> fst ` set (error_map (score_docs preds answers))"
    using score_docs_keys [of preds answers] assms(2) by blast
  then have "k \<notin> fst ` set (snd (snd (cal_f1_all preds answers)))"
    by (simp add: cal_f1_all_errors)
  with s c e show ?thesis by simp
qed

theorem C6_ground_truth_keys_only_witness:
  "ascii ''p'' \<in> fst ` set [(ascii ''p'', TDict [(ascii ''a'', Scalar (SStr (ascii ''x'')))])] \<and>
   ascii ''p'' \<notin> fst ` set [(ascii ''g'', TDict [(ascii ''a'', Scalar (SStr (ascii ''x'')))])] \<and>
   score_docs [(ascii ''p'', TDict [(ascii ''a'', Scalar (SStr (ascii ''x'')))])]
        [(ascii ''g'', TDict [(ascii ''a'', Scalar (SStr (ascii ''x'')))])] =
   score_docs (AList.delete (ascii ''p'') [(ascii ''p'', TDict [(ascii ''a'', Scalar (SStr (ascii ''x'')))])])
        [(ascii ''g'', TDict [(ascii ''a'', Scalar (SStr (ascii ''x'')))])] \<and>
   ascii ''p'' \<notin> fst ` set (snd (snd (cal_f1_all [(ascii ''p'', TDict [(ascii ''a'', Scalar (SStr (ascii ''x'')))])]
        [(ascii ''g'', TDict [(ascii ''a'', Scalar (SStr (ascii ''x'')))])])))"
proof -
  have h1: "ascii ''p'' \<in> fst ` set [(ascii ''p'', TDict [(ascii ''a'', Scalar (SStr (ascii ''x'')))])]"
    by simp
  have h2: "ascii ''p'' \<notin> fst ` set [(ascii ''g'', TDict [(ascii ''a'', Scalar (SStr (ascii ''x'')))])]"
    by (simp add: ascii_def)
  note c = C6_ground_truth_keys_only [OF h1 h2]
  show ?thesis
    by (intro conjI h1 h2 c [THEN conjunct1] c [THEN conjunct2, THEN conjunct2, THEN conjunct2])
qed

section \<open>The summary\<close>

lemma distinct_fst_sort_key:
  "distinct (map fst (sort_key f xs)) = distinct (map fst xs)"
proof -
  have "mset (map fst (sort_key f xs)) = mset (map fst xs)"
    by simp
  then show ?thesis
    by (rule mset_eq_imp_distinct_iff)
qed

lemma map_of_sort_key:
  "distinct (map fst xs) \<Longrightarrow> map_of (sort_key f xs) = map_of xs"
  by (simp add: map_of_inject_set distinct_fst_sort_key)

lemma distinct_touch: "distinct (map fst m) \<Longrightarrow> distinct (map fst (touch n m))"
  by (simp add: touch_def distinct_update)

lemma distinct_add_tp: "distinct (map fst m) \<Longrightarrow> distinct (map fst (add_tp n m))"
  by (simp add: add_tp_def distinct_map_entry)

lemma distinct_add_fn_or_fp: "distinct (map fst m) \<Longrightarrow> distinct (map fst (add_fn_or_fp n m))"
  by (simp add: add_fn_or_fp_def distinct_map_entry)

lemma pred_step_distinct:
  "distinct (map fst (metric_info st)) \<Longrightarrow> distinct (map fst (metric_info (pred_step f st)))"
  by (simp add: pred_step_def Let_def distinct_touch distinct_add_tp distinct_add_fn_or_fp)

lemma fn_step_distinct:
  "distinct (map fst (metric_info st)) \<Longrightarrow> distinct (map fst (metric_info (fn_step f st)))"
  by (simp add: fn_step_def Let_def distinct_touch distinct_add_fn_or_fp)

lemma pred_loop_distinct:
  "distinct (map fst (metric_info st)) \<Longrightarrow> distinct (map fst (metric_info (fold pred_step P st)))"
  by (induction P arbitrary: st) (simp_all add: pred_step_distinct)

lemma fn_loop_distinct:
  "distinct (map fst (metric_info st)) \<Longrightarrow> distinct (map fst (metric_info (fold fn_step F st)))"
  by (induction F arbitrary: st) (simp_all add: fn_step_distinct)

lemma doc_step_distinct:
  assumes "distinct (map fst (metric_info st))"
  shows "distinct (map fst (metric_info (doc_step preds doc st)))"
proof -
  define st0 where "st0 = st\<lparr>answer := flatten (normalize_dict (snd doc)),
                     sample_error_info := \<lparr>fp = [], fn = [], tp = []\<rparr>\<rparr>"
  define st1 where "st1 = fold pred_step (doc_pred preds (fst doc)) st0"
  define st2 where "st2 = st1\<lparr>total_fn_or_fp := total_fn_or_fp st1 + length (answer st1)\<rparr>"
  note u = doc_step_stages [OF st0_def st1_def st2_def]
  have "distinct (map fst (metric_info st0))"
    using assms by (simp add: st0_def)
  then have "distinct (map fst (metric_info st1))"
    unfolding st1_def by (rule pred_loop_distinct)
  then have "distinct (map fst (metric_info st2))"
    by (simp add: st2_def)
  then have "distinct (map fst (metric_info (fold fn_step (answer st1) st2)))"
    by (rule fn_loop_distinct)
  then show ?thesis
    by (simp add: u record_errors_fields)
qed

lemma docs_loop_distinct:
  "distinct (map fst (metric_info st)) \<Longrightarrow>
     distinct (map fst (metric_info (fold (doc_step preds) answers st)))"
  by (induction answers arbitrary: st) (simp_all add: doc_step_distinct)

lemma score_docs_distinct: "distinct (map fst (metric_info (score_docs preds answers)))"
  unfolding score_docs_def by (rule docs_loop_distinct) (simp add: init_scorer_def)

lemma f1_bounds:
  "0 \<le> real a / (real a + real b / 2 + 1 / 10 ^ 6) \<and>
   real a / (real a + real b / 2 + 1 / 10 ^ 6) \<le> 1"
proof -
  have p: "0 < real a + real b / 2 + 1 / 10 ^ 6"
    by (simp add: add_nonneg_pos)
  have "real a \<le> real a + real b / 2 + 1 / 10 ^ 6"
    by simp
  then have "real a / (real a + real b / 2 + 1 / 10 ^ 6) \<le> 1"
    using p by (simp add: divide_le_eq)
  moreover have "0 \<le> real a / (real a + real b / 2 + 1 / 10 ^ 6)"
    using p by (simp add: divide_nonneg_pos)
  ultimately show ?thesis by simp
qed

lemma cal_f1_all_metric:
  "map_of (fst (snd (cal_f1_all preds answers))) name =
     map_option with_acc (map_of (metric_info (score_docs preds answers)) name)"
proof -
  let ?m = "map (\<lambda>(field_name, i). (field_name, with_acc i)) (metric_info (score_docs preds answers))"
  have f: "map fst ?m = map fst (metric_info (score_docs preds answers))"
    by (simp add: case_prod_unfold comp_def)
  have d: "distinct (map fst ?m)"
    unfolding f by (rule score_docs_distinct)
  have "map_of ?m name = map_option with_acc (map_of (metric_info (score_docs preds answers)) name)"
    by (simp add: map_of_map)
  then show ?thesis
    by (simp add: cal_f1_all_def Let_def map_of_sort_key [OF d])
qed

text \<open>
  Claim C7. The score that \<open>cal_f1_all\<close> returns is
  \<open>total_tp / (total_tp + total_fn_or_fp / 2 + 1e-6)\<close> of the totals its loops have
  counted; it lies between 0 and 1 for every pair of maps, and is 0 when the ground truth
  is empty. Every entry of the per-field map carries the counters of its field, and its
  \<open>acc\<close> is the same formula on these two counters, again between 0 and 1. (Division is
  exact here: Python's float rounding is not part of the model.)
\<close>

theorem C7_score_formula:
  "fst (cal_f1_all preds answers) =
     real (total_tp (score_docs preds answers)) /
       (real (total_tp (score_docs preds answers)) +
        real (total_fn_or_fp (score_docs preds answers)) / 2 + 1 / 10 ^ 6) \<and>
   0 \<le> fst (cal_f1_all preds answers) \<and> fst (cal_f1_all preds answers) \<le> 1 \<and>
   fst (cal_f1_all preds []) = 0 \<and>
   (map_of (fst (snd (cal_f1_all preds answers))) name = Some r \<longrightarrow>
      f_total_tp r = field_tp (metric_info (score_docs preds answers)) name \<and>
      f_total_fn_or_fp r = field_fn_or_fp (metric_info (score_docs preds answers)) name \<and>
      acc r = real (f_total_tp r) / (real (f_total_tp r) + real (f_total_fn_or_fp r) / 2 + 1 / 10 ^ 6) \<and>
      0 \<le> acc r \<and> acc r \<le> 1)"
proof -
  have a: "fst (cal_f1_all preds answers) =
     real (total_tp (score_docs preds answers)) /
       (real (total_tp (score_docs preds answers)) +
        real (total_fn_or_fp (score_docs preds answers)) / 2 + 1 / 10 ^ 6)"
    by (simp add: cal_f1_all_def Let_def)
  have b: "0 \<le> fst (cal_f1_all preds answers) \<and> fst (cal_f1_all preds answers) \<le> 1"
    unfolding a by (rule f1_bounds)
  have c: "fst (cal_f1_all preds []) = 0"
    by (simp add: cal_f1_all_def Let_def score_docs_def init_scorer_def)
  have d: "f_total_tp r = field_tp (metric_info (score_docs preds answers)) name \<and>
      f_total_fn_or_fp r = field_fn_or_fp (metric_info (score_docs preds answers)) name \<and>
      acc r = real (f_total_tp r) / (real (f_total_tp r) + real (f_total_fn_or_fp r) / 2 + 1 / 10 ^ 6) \<and>
      0 \<le> acc r \<and> acc r \<le> 1"
    if "map_of (fst (snd (cal_f1_all preds answers))) name = Some r"
  proof -
    from that obtain i where i: "map_of (metric_info (score_docs preds answers)) name = Some i"
      and r: "r = with_acc i"
      by (auto simp: cal_f1_all_metric)
    have e: "acc r = real (f_total_tp r) / (real (f_total_tp r) + real (f_total_fn_or_fp r) / 2 + 1 / 10 ^ 6)"
      by (simp add: r with_acc_def)
    show ?thesis
      using f1_bounds [of "f_total_tp r" "f_total_fn_or_fp r"] i
      unfolding e by (simp add: r with_acc_def field_tp_def field_fn_or_fp_def)
  qed
  show ?thesis
    using a b c d by blast
qed

theorem C7_score_formula_witness:
  "map_of (fst (snd (cal_f1_all
       [(ascii ''doc'', TDict [(ascii ''items'', TList [Scalar (SStr (ascii ''a''))])])]
       [(ascii ''doc'', TDict [(ascii ''items'',
           TList [Scalar (SStr (ascii ''a'')), Scalar (SStr (ascii ''a''))])])])))
     (ascii ''items'')
   = Some \<lparr>f_total_tp = 1, f_total_fn_or_fp = 1, acc = 1000000 / 1500001\<rparr> \<and>
   acc \<lparr>f_total_tp = 1, f_total_fn_or_fp = 1, acc = 1000000 / 1500001\<rparr> =
     real (f_total_tp \<lparr>f_total_tp = 1, f_total_fn_or_fp = 1, acc = 1000000 / 1500001 :: real\<rparr>) /
      (real (f_total_tp \<lparr>f_total_tp = 1, f_total_fn_or_fp = 1, acc = 1000000 / 1500001 :: real\<rparr>) +
       real (f_total_fn_or_fp \<lparr>f_total_tp = 1, f_total_fn_or_fp = 1, acc = 1000000 / 1500001 :: real\<rparr>) / 2 +
       1 / 10 ^ 6)"
proof -
  have h: "map_of (fst (snd (cal_f1_all
       [(ascii ''doc'', TDict [(ascii ''items'', TList [Scalar (SStr (ascii ''a''))])])]
       [(ascii ''doc'', TDict [(ascii ''items'',
           TList [Scalar (SStr (ascii ''a'')), Scalar (SStr (ascii ''a''))])])])))
     (ascii ''items'')
   = Some \<lparr>f_total_tp = 1, f_total_fn_or_fp = 1, acc = 1000000 / 1500001\<rparr>"
    by (simp add: cal_f1_all_def Let_def scenario_C with_acc_def)
  note c = C7_score_formula
    [of "[(ascii ''doc'', TDict [(ascii ''items'', TList [Scalar (SStr (ascii ''a''))])])]"
        "[(ascii ''doc'', TDict [(ascii ''items'',
           TList [Scalar (SStr (ascii ''a'')), Scalar (SStr (ascii ''a''))])])]"
        "ascii ''items''" "\<lparr>f_total_tp = 1, f_total_fn_or_fp = 1, acc = 1000000 / 1500001\<rparr>"]
  from c have i: "map_of (fst (snd (cal_f1_all
       [(ascii ''doc'', TDict [(ascii ''items'', TList [Scalar (SStr (ascii ''a''))])])]
       [(ascii ''doc'', TDict [(ascii ''items'',
           TList [Scalar (SStr (ascii ''a'')), Scalar (SStr (ascii ''a''))])])])))
     (ascii ''items'')
   = Some \<lparr>f_total_tp = 1, f_total_fn_or_fp = 1, acc = 1000000 / 1500001\<rparr> \<longrightarrow>
     acc \<lparr>f_total_tp = 1, f_total_fn_or_fp = 1, acc = 1000000 / 1500001\<rparr> =
     real (f_total_tp \<lparr>f_total_tp = 1, f_total_fn_or_fp = 1, acc = 1000000 / 1500001 :: real\<rparr>) /
      (real (f_total_tp \<lparr>f_total_tp = 1, f_total_fn_or_fp = 1, acc = 1000000 / 1500001 :: real\<rparr>) +
       real (f_total_fn_or_fp \<lparr>f_total_tp = 1, f_total_fn_or_fp = 1, acc = 1000000 / 1500001 :: real\<rparr>) / 2 +
       1 / 10 ^ 6)"
    by blast
  show ?thesis
    by (intro conjI h i [rule_format, OF h])
qed

section \<open>The error record of a document\<close>

lemma counter_fold:
  "map_of (fold (\<lambda>k m. AList.update k (case map_of m k of None \<Rightarrow> 1 | Some n \<Rightarrow> n + 1) m) xs m0) k =
     (if k \<in> set xs
      then Some ((case map_of m0 k of None \<Rightarrow> 0 | Some n \<Rightarrow> n) + count_list xs k)
      else map_of m0 k)"
  by (induction xs arbitrary: m0) (auto simp: update_conv' split: option.splits)

lemma map_of_counter:
  "map_of (counter xs) k = (if k \<in> set xs then Some (count_list xs k) else None)"
  by (simp add: counter_def counter_fold)

lemma counter_fold_keys:
  "fst ` set (fold (\<lambda>k m. AList.update k (case map_of m k of None \<Rightarrow> 1 | Some n \<Rightarrow> n + 1) m) xs m0) =
     set xs \<union> fst ` set m0"
  by (induction xs arbitrary: m0) (auto simp: dom_update)

lemma counter_keys: "fst ` set (counter xs) = set xs"
  by (simp add: counter_def counter_fold_keys)

lemma count_prefixed:
  "count_list (map (\<lambda>x. pre @ fst x) F) (pre @ path) = count_list (map fst F) path"
  by (induction F) auto

lemma pred_step_local:
  "answer st = answer st' \<Longrightarrow> sample_error_info st = sample_error_info st' \<Longrightarrow>
     answer (pred_step f st) = answer (pred_step f st') \<and>
     sample_error_info (pred_step f st) = sample_error_info (pred_step f st')"
  by (simp add: pred_step_def Let_def)

lemma pred_loop_local:
  "answer st = answer st' \<Longrightarrow> sample_error_info st = sample_error_info st' \<Longrightarrow>
     answer (fold pred_step P st) = answer (fold pred_step P st') \<and>
     sample_error_info (fold pred_step P st) = sample_error_info (fold pred_step P st')"
proof (induction P arbitrary: st st')
  case Nil
  then show ?case by simp
next
  case (Cons f P)
  note l = pred_step_local [OF Cons.prems, of f]
  show ?case
    using Cons.IH [of "pred_step f st" "pred_step f st'"] l by simp
qed

lemma fn_loop_sample:
  "sample_error_info (fold fn_step F st) = (sample_error_info st)\<lparr>fn := fn (sample_error_info st) @ F\<rparr>"
proof (induction F arbitrary: st)
  case Nil
  show ?case by simp
next
  case (Cons f F)
  show ?case
    by (simp add: Cons.IH) (simp add: fn_step_def Let_def)
qed

lemma doc_step_sample:
  "sample_error_info (doc_step preds doc st) = doc_sample preds doc"
proof -
  define st0 where "st0 = st\<lparr>answer := flatten (normalize_dict (snd doc)),
                     sample_error_info := \<lparr>fp = [], fn = [], tp = []\<rparr>\<rparr>"
  define st1 where "st1 = fold pred_step (doc_pred preds (fst doc)) st0"
  define st2 where "st2 = st1\<lparr>total_fn_or_fp := total_fn_or_fp st1 + length (answer st1)\<rparr>"
  note u = doc_step_stages [OF st0_def st1_def st2_def]
  define i0 where "i0 = init_scorer\<lparr>answer := flatten (normalize_dict (snd doc)),
                     sample_error_info := \<lparr>fp = [], fn = [], tp = []\<rparr>\<rparr>"
  define i1 where "i1 = fold pred_step (doc_pred preds (fst doc)) i0"
  define i2 where "i2 = i1\<lparr>total_fn_or_fp := total_fn_or_fp i1 + length (answer i1)\<rparr>"
  note v = doc_step_stages [OF i0_def i1_def i2_def]
  have a: "answer st0 = answer i0" and b: "sample_error_info st0 = sample_error_info i0"
    by (simp_all add: st0_def i0_def)
  have l: "answer st1 = answer i1 \<and> sample_error_info st1 = sample_error_info i1"
    unfolding st1_def i1_def by (rule pred_loop_local [OF a b])
  have "sample_error_info (fold fn_step (answer st1) st2) =
        sample_error_info (fold fn_step (answer i1) i2)"
    using l by (simp add: fn_loop_sample st2_def i2_def)
  then show ?thesis
    by (simp add: doc_sample_def u v record_errors_fields)
qed

lemma doc_step_error_map:
  "error_map (doc_step preds doc st) =
     (if fp (doc_sample preds doc) = [] \<and> fn (doc_sample preds doc) = []
      then error_map st
      else AList.update (fst doc)
             \<lparr>fp = fp (doc_sample preds doc), fn = fn (doc_sample preds doc),
              tp = tp (doc_sample preds doc),
              error_num = length (fp (doc_sample preds doc)) + length (fn (doc_sample preds doc)),
              error_info = counter (map (\<lambda>x. ascii ''counter_'' @ fst x)
                 (fn (doc_sample preds doc) @ fp (doc_sample preds doc)))\<rparr>
             (error_map st))"
proof -
  define st0 where "st0 = st\<lparr>answer := flatten (normalize_dict (snd doc)),
                     sample_error_info := \<lparr>fp = [], fn = [], tp = []\<rparr>\<rparr>"
  define st1 where "st1 = fold pred_step (doc_pred preds (fst doc)) st0"
  define st2 where "st2 = st1\<lparr>total_fn_or_fp := total_fn_or_fp st1 + length (answer st1)\<rparr>"
  define st3 where "st3 = fold fn_step (answer st1) st2"
  note u = doc_step_stages [OF st0_def st1_def st2_def, folded st3_def]
  have s: "sample_error_info st3 = doc_sample preds doc"
    using doc_step_sample [of preds doc st] by (simp add: u record_errors_fields)
  have e: "error_map st3 = error_map st"
    by (simp add: st3_def fn_loop_error_map st2_def st1_def pred_loop_error_map st0_def)
  show ?thesis
    unfolding u by (simp add: record_errors_def Let_def s e)
qed

lemma doc_record_eq:
  "doc_record preds doc =
     (if fp (doc_sample preds doc) = [] \<and> fn (doc_sample preds doc) = []
      then None
      else Some \<lparr>fp = fp (doc_sample preds doc), fn = fn (doc_sample preds doc),
              tp = tp (doc_sample preds doc),
              error_num = length (fp (doc_sample preds doc)) + length (fn (doc_sample preds doc)),
              error_info = counter (map (\<lambda>x. ascii ''counter_'' @ fst x)
                 (fn (doc_sample preds doc) @ fp (doc_sample preds doc)))\<rparr>)"
  by (simp add: doc_record_def doc_step_error_map update_conv' init_scorer_def)

lemma doc_step_lookup:
  "map_of (error_map (doc_step preds doc st)) k =
     (if k = fst doc
      then (case doc_record preds doc of None \<Rightarrow> map_of (error_map st) k | Some r \<Rightarrow> Some r)
      else map_of (error_map st) k)"
  by (simp add: doc_step_error_map doc_record_eq update_conv')

lemma docs_loop_other:
  "k \<notin> fst ` set answers \<Longrightarrow>
     map_of (error_map (fold (doc_step preds) answers st)) k = map_of (error_map st) k"
proof (induction answers arbitrary: st)
  case Nil
  show ?case by simp
next
  case (Cons d ds)
  then have "k \<noteq> fst d" and "k \<notin> fst ` set ds" by auto
  then show ?case
    using Cons.IH [of "doc_step preds d st"] by (simp add: doc_step_lookup)
qed

lemma docs_loop_lookup:
  "distinct (map fst answers) \<Longrightarrow> doc \<in> set answers \<Longrightarrow>
     map_of (error_map (fold (doc_step preds) answers st)) (fst doc) =
       (case doc_record preds doc of None \<Rightarrow> map_of (error_map st) (fst doc) | Some r \<Rightarrow> Some r)"
proof (induction answers arbitrary: st)
  case Nil
  then show ?case by simp
next
  case (Cons d ds)
  show ?case
  proof (cases "doc = d")
    case True
    then have "fst doc \<notin> fst ` set ds"
      using Cons.prems(1) by auto
    then show ?thesis
      unfolding True by (simp add: docs_loop_other doc_step_lookup)
  next
    case False
    then have m: "doc \<in> set ds" and n: "fst doc \<noteq> fst d"
      using Cons.prems by (auto simp: image_iff)
    have dd: "distinct (map fst ds)"
      using Cons.prems(1) by simp
    show ?thesis
      using Cons.IH [OF dd m, of "doc_step preds d st"] n
      by (simp add: doc_step_lookup split: option.splits)
  qed
qed

lemma record_errors_distinct:
  "distinct (map fst (error_map st)) \<Longrightarrow> distinct (map fst (error_map (record_errors k st)))"
  by (simp add: record_errors_def Let_def distinct_update)

lemma doc_step_errors_distinct:
  "distinct (map fst (error_map st)) \<Longrightarrow> distinct (map fst (error_map (doc_step preds doc st)))"
  by (simp add: doc_step_error_map distinct_update)

lemma docs_loop_errors_distinct:
  "distinct (map fst (error_map st)) \<Longrightarrow>
     distinct (map fst (error_map (fold (doc_step preds) answers st)))"
  by (induction answers arbitrary: st) (simp_all add: doc_step_errors_distinct)

lemma cal_f1_all_error_lookup:
  assumes "distinct (map fst answers)" and "doc \<in> set answers"
  shows "map_of (snd (snd (cal_f1_all preds answers))) (fst doc) = doc_record preds doc"
proof -
  have d: "distinct (map fst (error_map (score_docs preds answers)))"
    unfolding score_docs_def by (rule docs_loop_errors_distinct) (simp add: init_scorer_def)
  have "map_of (error_map (score_docs preds answers)) (fst doc) = doc_record preds doc"
    unfolding score_docs_def
    by (simp add: docs_loop_lookup [OF assms] init_scorer_def split: option.splits)
  then show ?thesis
    by (simp add: cal_f1_all_errors map_of_sort_key [OF d])
qed

text \<open>
  Claim C9, as the code has it. For a document of the ground truth (whose keys are
  distinct, as those of a dictionary are), a record is stored in the error map if and
  only if the document has at least one \<open>fp\<close> or \<open>fn\<close> entry. The record holds the three
  lists of the document, its \<open>error_num\<close> is \<open>|fp| + |fn|\<close>, and its \<open>error_info\<close> has one
  key for every field path that occurs in \<open>fn\<close> or \<open>fp\<close>, namely the path with the prefix
  \<open>counter_\<close>, mapped to the number of occurrences of the path in \<open>fn\<close> and \<open>fp\<close> together;
  it has no other key.
\<close>

theorem C9_error_record:
  assumes "distinct (map fst answers)" and "doc \<in> set answers"
  shows "(map_of (snd (snd (cal_f1_all preds answers))) (fst doc) \<noteq> None) =
           (fp (doc_sample preds doc) \<noteq> [] \<or> fn (doc_sample preds doc) \<noteq> []) \<and>
         (map_of (snd (snd (cal_f1_all preds answers))) (fst doc) = Some r \<longrightarrow>
            fp r = fp (doc_sample preds doc) \<and>
            fn r = fn (doc_sample preds doc) \<and>
            tp r = tp (doc_sample preds doc) \<and>
            error_num r = length (fp r) + length (fn r) \<and>
            0 < error_num r \<and>
            map_of (error_info r) (ascii ''counter_'' @ path) =
              (if path \<in> fst ` set (fn r @ fp r)
               then Some (count_list (map fst (fn r @ fp r)) path) else None) \<and>
            fst ` set (error_info r) = (\<lambda>p. ascii ''counter_'' @ p) ` fst ` set (fn r @ fp r))"
proof -
  note l = cal_f1_all_error_lookup [OF assms, of preds]
  have a: "(map_of (snd (snd (cal_f1_all preds answers))) (fst doc) \<noteq> None) =
           (fp (doc_sample preds doc) \<noteq> [] \<or> fn (doc_sample preds doc) \<noteq> [])"
    by (simp add: l doc_record_eq)
  have b: "fp r = fp (doc_sample preds doc) \<and>
            fn r = fn (doc_sample preds doc) \<and>
            tp r = tp (doc_sample preds doc) \<and>
            error_num r = length (fp r) + length (fn r) \<and>
            0 < error_num r \<and>
            map_of (error_info r) (ascii ''counter_'' @ path) =
              (if path \<in> fst ` set (fn r @ fp r)
               then Some (count_list (map fst (fn r @ fp r)) path) else None) \<and>
            fst ` set (error_info r) = (\<lambda>p. ascii ''counter_'' @ p) ` fst ` set (fn r @ fp r)"
    if h: "map_of (snd (snd (cal_f1_all preds answers))) (fst doc) = Some r"
  proof -
    define F where "F = fn (doc_sample preds doc) @ fp (doc_sample preds doc)"
    have ne: "\<not> (fp (doc_sample preds doc) = [] \<and> fn (doc_sample preds doc) = [])"
      using h by (auto simp: l doc_record_eq split: if_splits)
    have r: "r = \<lparr>fp = fp (doc_sample preds doc), fn = fn (doc_sample preds doc),
              tp = tp (doc_sample preds doc),
              error_num = length (fp (doc_sample preds doc)) + length (fn (doc_sample preds doc)),
              error_info = counter (map (\<lambda>x. ascii ''counter_'' @ fst x) F)\<rparr>"
      using h ne unfolding F_def by (simp add: l doc_record_eq)
    have c: "map_of (counter (map (\<lambda>x. ascii ''counter_'' @ fst x) F)) (ascii ''counter_'' @ path) =
              (if path \<in> fst ` set F then Some (count_list (map fst F) path) else None)"
      by (simp add: map_of_counter count_prefixed image_iff)
    have k: "fst ` set (counter (map (\<lambda>x. ascii ''counter_'' @ fst x) F)) =
              (\<lambda>p. ascii ''counter_'' @ p) ` fst ` set F"
      by (simp add: counter_keys image_image)
    have f: "fn r @ fp r = F"
      by (simp add: r F_def)
    have e: "error_info r = counter (map (\<lambda>x. ascii ''counter_'' @ fst x) F)"
      by (simp add: r)
    have n: "0 < length (fp (doc_sample preds doc)) + length (fn (doc_sample preds doc))"
      using ne by auto
    show ?thesis
      unfolding f e using c k n by (simp add: r)
  qed
  show ?thesis
    using a b by blast
qed

lemma scenario_B:
  "score_docs [] [(ascii ''g'', TDict [(ascii ''a'', Scalar (SStr (ascii ''x'')))])] =
     \<lparr>total_tp = 0, total_fn_or_fp = 1,
      metric_info = [(ascii ''a'', \<lparr>f_total_tp = 0, f_total_fn_or_fp = 1\<rparr>)],
      error_map = [(ascii ''g'',
        \<lparr>fp = [], fn = [(ascii ''a'', SStr (ascii ''x''))], tp = [], error_num = 1,
         error_info = [(ascii ''counter_a'', 1)]\<rparr>)],
      answer = [(ascii ''a'', SStr (ascii ''x''))],
      sample_error_info = \<lparr>fp = [], fn = [(ascii ''a'', SStr (ascii ''x''))], tp = []\<rparr>\<rparr>"
  by (simp add: scorer_defs)

lemma scenario_B_errors:
  "map_of (snd (snd (cal_f1_all [] [(ascii ''g'', TDict [(ascii ''a'', Scalar (SStr (ascii ''x'')))])])))
     (ascii ''g'') =
   Some \<lparr>fp = [], fn = [(ascii ''a'', SStr (ascii ''x''))], tp = [], error_num = 1,
         error_info = [(ascii ''counter_a'', 1)]\<rparr>"
  by (simp add: cal_f1_all_def Let_def scenario_B)

theorem C9_error_record_witness:
  "distinct (map fst [(ascii ''g'', TDict [(ascii ''a'', Scalar (SStr (ascii ''x'')))])]) \<and>
   (ascii ''g'', TDict [(ascii ''a'', Scalar (SStr (ascii ''x'')))]) \<in>
     set [(ascii ''g'', TDict [(ascii ''a'', Scalar (SStr (ascii ''x'')))])] \<and>
   map_of (snd (snd (cal_f1_all [] [(ascii ''g'', TDict [(ascii ''a'', Scalar (SStr (ascii ''x'')))])])))
     (fst (ascii ''g'', TDict [(ascii ''a'', Scalar (SStr (ascii ''x'')))])) =
   Some \<lparr>fp = [], fn = [(ascii ''a'', SStr (ascii ''x''))], tp = [], error_num = 1,
         error_info = [(ascii ''counter_a'', 1)]\<rparr> \<and>
   map_of [(ascii ''counter_a'', 1 :: nat)] (ascii ''counter_'' @ ascii ''a'') = Some 1"
proof -
  have h1: "distinct (map fst [(ascii ''g'', TDict [(ascii ''a'', Scalar (SStr (ascii ''x'')))])])"
    by simp
  have h2: "(ascii ''g'', TDict [(ascii ''a'', Scalar (SStr (ascii ''x'')))]) \<in>
     set [(ascii ''g'', TDict [(ascii ''a'', Scalar (SStr (ascii ''x'')))])]"
    by simp
  have h3: "map_of (snd (snd (cal_f1_all [] [(ascii ''g'', TDict [(ascii ''a'', Scalar (SStr (ascii ''x'')))])])))
     (fst (ascii ''g'', TDict [(ascii ''a'', Scalar (SStr (ascii ''x'')))])) =
   Some \<lparr>fp = [], fn = [(ascii ''a'', SStr (ascii ''x''))], tp = [], error_num = 1,
         error_info = [(ascii ''counter_a'', 1)]\<rparr>"
    using scenario_B_errors by simp
  note c = C9_error_record [OF h1 h2, of "[]" _ "ascii ''a''", THEN conjunct2, THEN mp, OF h3]
  have "map_of [(ascii ''counter_a'', 1 :: nat)] (ascii ''counter_'' @ ascii ''a'') = Some 1"
    using c by simp
  with h1 h2 h3 show ?thesis
    by (intro conjI)
qed

text \<open>
  The claim as the specification words it fails on the keys of \<open>error_info\<close>: for the
  ground truth \<open>{"a": "x"}\<close> with no prediction, the path \<open>a\<close> occurs in \<open>fn\<close>, and
  \<open>error_info\<close> has no entry for \<open>a\<close>; its only key is \<open>counter_a\<close>.
\<close>

theorem C9_counterexample:
  "map_of (snd (snd (cal_f1_all [] [(ascii ''g'', TDict [(ascii ''a'', Scalar (SStr (ascii ''x'')))])])))
     (ascii ''g'') =
   Some \<lparr>fp = [], fn = [(ascii ''a'', SStr (ascii ''x''))], tp = [], error_num = 1,
         error_info = [(ascii ''counter_a'', 1)]\<rparr> \<and>
   ascii ''a'' \<in> fst ` set [(ascii ''a'', SStr (ascii ''x''))] \<and>
   map_of [(ascii ''counter_a'', 1 :: nat)] (ascii ''a'') = None"
  using scenario_B_errors by (simp add: ascii_def)

section \<open>The structure normalizer\<close>

lemma lstrip_fix: "s = [] \<or> \<not> isspace (hd s) \<Longrightarrow> lstrip s = s"
  by (cases s) (auto simp: lstrip_def)

lemma rstrip_prefix: "\<exists>w. s = rstrip s @ w"
  unfolding rstrip_def
  by (metis rev_append rev_rev_ident takeWhile_dropWhile_id)

lemma rstrip_idem: "rstrip (rstrip s) = rstrip s"
  by (simp add: rstrip_def)

lemma lstrip_head: "lstrip s = [] \<or> \<not> isspace (hd (lstrip s))"
  unfolding lstrip_def by (metis hd_dropWhile)

lemma strip_idem: "strip (strip s) = strip s"
proof -
  define t where "t = lstrip s"
  obtain w where w: "t = rstrip t @ w"
    using rstrip_prefix by blast
  have "rstrip t = [] \<or> \<not> isspace (hd (rstrip t))"
  proof (cases "rstrip t")
    case Nil
    then show ?thesis by simp
  next
    case (Cons a as)
    then have "hd t = a" using w by (metis hd_append2 list.sel(1) list.distinct(1))
    moreover have "t \<noteq> []" using w Cons by auto
    ultimately show ?thesis
      using lstrip_head [of s] Cons by (simp add: t_def)
  qed
  then have "lstrip (rstrip t) = rstrip t"
    by (rule lstrip_fix)
  then show ?thesis
    by (simp add: strip_def t_def [symmetric] rstrip_idem)
qed

lemma str_int_float_not_dict: "str_int_float x \<Longrightarrow> \<not> is_dict x"
  by (cases x) auto

lemma scalar_branch:
  "\<not> list_all is_dict xs \<Longrightarrow>
     normalize_dict (TList xs) =
       TList (map (\<lambda>s. Scalar (SStr s))
               (filter (\<lambda>s. s \<noteq> []) (map str_strip (filter str_int_float xs))))"
  by (simp add: filter_map comp_def)

lemma scalar_branch_trimmed:
  "list_all trimmed_str
     (map (\<lambda>s. Scalar (SStr s)) (filter (\<lambda>s. s \<noteq> []) (map str_strip (filter str_int_float xs))))"
proof (induction xs)
  case Nil
  show ?case by simp
next
  case (Cons x xs)
  show ?case
  proof (cases x)
    case (Scalar v)
    then show ?thesis using Cons by (cases v) (simp_all add: strip_idem)
  qed (use Cons in simp_all)
qed

lemma trimmed_str_not_dict: "trimmed_str e \<Longrightarrow> \<not> is_dict e"
  by (cases e) auto

text \<open>
  Claim C5. A list that mixes maps and scalars is normalized by the scalar-list branch:
  the result is the list of the stripped \<open>str\<close> of the elements of type string, int or
  float, in order, without the empty ones. The maps are dropped, not stringified: the
  result is the one of the list with its maps removed, and it holds trimmed non-empty
  strings only, at most one for each element of these three types.
\<close>

theorem C5_mixed_list:
  assumes "d \<in> set xs" and "is_dict d" and "v \<in> set xs" and "\<not> is_dict v"
  shows "normalize_dict (TList xs) =
           TList (map (\<lambda>s. Scalar (SStr s))
                   (filter (\<lambda>s. s \<noteq> []) (map str_strip (filter str_int_float xs)))) \<and>
         normalize_dict (TList xs) = normalize_dict (TList (filter (\<lambda>x. \<not> is_dict x) xs)) \<and>
         (\<exists>ys. normalize_dict (TList xs) = TList ys \<and> list_all trimmed_str ys \<and>
               list_all (\<lambda>e. \<not> is_dict e) ys \<and> length ys \<le> length (filter str_int_float xs))"
proof -
  let ?ys = "map (\<lambda>s. Scalar (SStr s))
                   (filter (\<lambda>s. s \<noteq> []) (map str_strip (filter str_int_float xs)))"
  have n: "\<not> list_all is_dict xs"
    using assms(3,4) by (auto simp: list_all_iff)
  have a: "normalize_dict (TList xs) = TList ?ys"
    by (rule scalar_branch [OF n])
  have n': "\<not> list_all is_dict (filter (\<lambda>x. \<not> is_dict x) xs)"
    using assms(3,4) by (auto simp: list_all_iff)
  have f: "filter str_int_float (filter (\<lambda>x. \<not> is_dict x) xs) = filter str_int_float xs"
    by (auto simp: str_int_float_not_dict intro: filter_cong)
  have b: "normalize_dict (TList (filter (\<lambda>x. \<not> is_dict x) xs)) = TList ?ys"
    unfolding scalar_branch [OF n'] f by simp
  have t: "list_all trimmed_str ?ys"
    by (rule scalar_branch_trimmed)
  then have nd: "list_all (\<lambda>e. \<not> is_dict e) ?ys"
    by (auto simp: list_all_iff trimmed_str_not_dict simp del: set_map set_filter)
  have le: "length ?ys \<le> length (filter str_int_float xs)"
  proof -
    have "length ?ys = length (filter (\<lambda>s. s \<noteq> []) (map str_strip (filter str_int_float xs)))"
      by (simp only: length_map)
    also have "\<dots> \<le> length (map str_strip (filter str_int_float xs))"
      by (rule length_filter_le)
    finally show ?thesis by (simp only: length_map)
  qed
  show ?thesis
    using a b t nd le by simp
qed

theorem C5_mixed_list_witness:
  "TDict [(ascii ''a'', Scalar (SInt 1))] \<in> set [TDict [(ascii ''a'', Scalar (SInt 1))],
       Scalar (SStr (ascii '' x '')), Scalar (SInt 5), Scalar (SBool True), Scalar (SStr [])] \<and>
   is_dict (TDict [(ascii ''a'', Scalar (SInt 1))]) \<and>
   Scalar (SInt 5) \<in> set [TDict [(ascii ''a'', Scalar (SInt 1))],
       Scalar (SStr (ascii '' x '')), Scalar (SInt 5), Scalar (SBool True), Scalar (SStr [])] \<and>
   \<not> is_dict (Scalar (SInt 5)) \<and>
   normalize_dict (TList [TDict [(ascii ''a'', Scalar (SInt 1))],
       Scalar (SStr (ascii '' x '')), Scalar (SInt 5), Scalar (SBool True), Scalar (SStr [])]) =
     TList [Scalar (SStr (ascii ''x'')), Scalar (SStr (ascii ''5''))]"
proof -
  have h1: "TDict [(ascii ''a'', Scalar (SInt 1))] \<in> set [TDict [(ascii ''a'', Scalar (SInt 1))],
       Scalar (SStr (ascii '' x '')), Scalar (SInt 5), Scalar (SBool True), Scalar (SStr [])]"
    by simp
  have h2: "is_dict (TDict [(ascii ''a'', Scalar (SInt 1))])"
    by simp
  have h3: "Scalar (SInt 5) \<in> set [TDict [(ascii ''a'', Scalar (SInt 1))],
       Scalar (SStr (ascii '' x '')), Scalar (SInt 5), Scalar (SBool True), Scalar (SStr [])]"
    by simp
  have h4: "\<not> is_dict (Scalar (SInt 5))"
    by simp
  note c = C5_mixed_list [OF h1 h2 h3 h4, THEN conjunct1]
  have "normalize_dict (TList [TDict [(ascii ''a'', Scalar (SInt 1))],
       Scalar (SStr (ascii '' x '')), Scalar (SInt 5), Scalar (SBool True), Scalar (SStr [])]) =
     TList [Scalar (SStr (ascii ''x'')), Scalar (SStr (ascii ''5''))]"
    unfolding c by (simp add: ascii_def strip_def lstrip_def rstrip_def isspace_def digits10.simps)
  with h1 h2 h3 h4 show ?thesis
    by (intro conjI)
qed

lemma update_fresh: "k \<notin> fst ` set al \<Longrightarrow> AList.update k v al = al @ [(k, v)]"
  by (induction al) auto

lemma list_all_update:
  "list_all Q al \<Longrightarrow> Q (k, v) \<Longrightarrow> list_all Q (AList.update k v al)"
  by (induction al) auto

lemma normalize_dict_shape: "is_dict (normalize_dict x) \<or> is_list (normalize_dict x)"
  by (cases x) (simp_all add: Let_def)

lemma normalize_dict_of_dict: "is_dict x \<Longrightarrow> is_dict (normalize_dict x)"
  by (cases x) (simp_all add: Let_def)

text \<open>A canonical dictionary is rebuilt key by key as it is.\<close>

lemma fold_store_fixed:
  assumes "distinct (map fst kvs)"
    and "list_all (\<lambda>kv. is_list (snd kv) \<and> truthy (snd kv)) kvs"
  shows "kvs = nd @ ys \<Longrightarrow> fold (store_key kvs) (map fst ys) nd = kvs"
proof (induction ys arbitrary: nd)
  case Nil
  then show ?case by simp
next
  case (Cons y ys)
  have m: "y \<in> set kvs"
    using Cons.prems by simp
  then have "(fst y, snd y) \<in> set kvs"
    by simp
  then have l: "map_of kvs (fst y) = Some (snd y)"
    by (rule map_of_is_SomeI [OF assms(1)])
  have q: "is_list (snd y) \<and> truthy (snd y)"
    using assms(2) m by (auto simp: list_all_iff)
  have f: "fst y \<notin> fst ` set nd"
    using assms(1) Cons.prems by auto
  have s: "store_key kvs (fst y) nd = nd @ [y]"
    using l q by (simp add: store_key_def update_fresh [OF f])
  have "fold (store_key kvs) (map fst (y # ys)) nd =
        fold (store_key kvs) (map fst ys) (store_key kvs (fst y) nd)"
    by simp
  also have "\<dots> = fold (store_key kvs) (map fst ys) (nd @ [y])"
    by (simp only: s)
  also have "\<dots> = kvs"
    by (rule Cons.IH) (simp add: Cons.prems)
  finally show ?case .
qed

lemma trimmed_list_fixed:
  "list_all trimmed_str xs \<Longrightarrow>
     map (\<lambda>item. Scalar (SStr (str_strip item)))
       (filter (\<lambda>item. str_int_float item \<and> str_strip item \<noteq> []) xs) = xs"
proof (induction xs)
  case Nil
  show ?case by simp
next
  case (Cons x xs)
  then obtain s where x: "x = Scalar (SStr s)" and s: "s \<noteq> []" "strip s = s"
    by (cases x rule: trimmed_str.cases) auto
  show ?case
    using Cons by (simp add: x s)
qed

lemma trimmed_not_all_dict: "list_all trimmed_str xs \<Longrightarrow> list_all is_dict xs \<Longrightarrow> xs = []"
  by (cases xs) (auto dest: trimmed_str_not_dict)

lemma canonical_fixed: "canonical x \<Longrightarrow> normalize_dict x = x"
proof (induction x rule: normalize_dict.induct)
  case (1 kvs)
  have v: "map (\<lambda>(key, v). (key, normalize_dict v)) kvs = kvs"
  proof (rule map_idI)
    fix kv assume m: "kv \<in> set kvs"
    obtain k y where kv: "kv = (k, y)" by (cases kv)
    have c: "canonical y"
      using "1.prems" m by (auto simp: list_all_iff kv)
    have "normalize_dict y = y"
      by (rule "1.IH" [OF m kv [symmetric] c])
    then show "(case kv of (key, v) \<Rightarrow> (key, normalize_dict v)) = kv"
      by (simp add: kv)
  qed
  have k: "sorted_keys kvs = map fst kvs"
    unfolding sorted_keys_def using "1.prems" by (simp add: sort_key_id_if_sorted)
  have d: "distinct (map fst kvs)"
    using "1.prems" by simp
  have q: "list_all (\<lambda>kv. is_list (snd kv) \<and> truthy (snd kv)) kvs"
    using "1.prems" by (auto simp: list_all_iff)
  have "fold (store_key kvs) (map fst kvs) [] = kvs"
    by (rule fold_store_fixed [OF d q]) simp
  then show ?case
    by (simp add: v k Let_def)
next
  case (2 xs)
  show ?case
  proof (cases "list_all is_dict xs")
    case True
    have "list_all (\<lambda>x. is_dict x \<and> truthy x \<and> canonical x) xs"
      using "2.prems" True trimmed_not_all_dict [of xs] by auto
    then have a: "\<And>x. x \<in> set xs \<Longrightarrow> truthy x \<and> normalize_dict x = x"
      using "2.IH" True by (auto simp: list_all_iff)
    have "map normalize_dict xs = xs"
      by (rule map_idI) (simp add: a)
    moreover have "filter truthy xs = xs"
      by (rule filter_True) (simp add: a)
    ultimately show ?thesis
      using True by simp
  next
    case False
    then have "list_all trimmed_str xs"
      using "2.prems" by (auto simp: list_all_iff)
    then show ?thesis
      using False by (simp add: trimmed_list_fixed)
  qed
next
  case (3 v)
  then show ?case by simp
qed

text \<open>The keys of the dictionary built by the loop stay sorted and distinct.\<close>

lemma fold_store_keys:
  fixes f :: "ustring \<Rightarrow> 'b :: linorder"
  shows "sorted (map f ks) \<Longrightarrow> sorted (map f (map fst nd)) \<Longrightarrow> distinct (map fst nd) \<Longrightarrow>
     (\<And>a k. a \<in> fst ` set nd \<Longrightarrow> k \<in> set ks \<Longrightarrow> f a \<le> f k) \<Longrightarrow>
     sorted (map f (map fst (fold (store_key vals) ks nd))) \<and>
     distinct (map fst (fold (store_key vals) ks nd))"
proof (induction ks arbitrary: nd)
  case Nil
  then show ?case by simp
next
  case (Cons k ks)
  let ?nd = "store_key vals k nd"
  have sk: "sorted (map f ks)" and le: "\<And>k'. k' \<in> set ks \<Longrightarrow> f k \<le> f k'"
    using Cons.prems(1) by auto
  have keys: "map fst ?nd = map fst nd \<or> (k \<notin> fst ` set nd \<and> map fst ?nd = map fst nd @ [k])"
    by (auto simp: store_key_def update_keys split: option.splits)
  from keys consider (same) "map fst ?nd = map fst nd"
    | (new) "k \<notin> fst ` set nd" "map fst ?nd = map fst nd @ [k]"
    by blast
  then have s: "sorted (map f (map fst ?nd))"
  proof cases
    case same
    show ?thesis unfolding same by (rule Cons.prems(2))
  next
    case new
    have "\<And>a. a \<in> set (map fst nd) \<Longrightarrow> f a \<le> f k"
      using Cons.prems(4) [of _ k] by simp
    then have "sorted (map f (map fst nd) @ [f k])"
      using Cons.prems(2) by (simp only: sorted_append) (auto simp del: map_map)
    then show ?thesis unfolding new(2) by simp
  qed
  have d: "distinct (map fst ?nd)"
    using keys Cons.prems(3) by auto
  have b: "f a \<le> f k'" if "a \<in> fst ` set ?nd" and "k' \<in> set ks" for a k'
  proof -
    have "fst ` set ?nd \<subseteq> insert k (fst ` set nd)"
      by (auto simp: store_key_def dom_update split: option.splits if_splits)
    then have "a \<in> fst ` set nd \<or> a = k"
      using that(1) by blast
    then show ?thesis
      using Cons.prems(4) [of a k'] le [of k'] that(2) by auto
  qed
  show ?case
    using Cons.IH [OF sk s d b] by simp
qed

lemma fold_store_values:
  assumes "\<And>k v. map_of vals k = Some v \<Longrightarrow> truthy v \<Longrightarrow>
              canonical v \<and> (is_dict v \<or> is_list v)"
  shows "list_all (\<lambda>kv. is_list (snd kv) \<and> truthy (snd kv) \<and> canonical (snd kv)) nd \<Longrightarrow>
     list_all (\<lambda>kv. is_list (snd kv) \<and> truthy (snd kv) \<and> canonical (snd kv))
       (fold (store_key vals) ks nd)"
proof (induction ks arbitrary: nd)
  case Nil
  then show ?case by simp
next
  case (Cons k ks)
  have "list_all (\<lambda>kv. is_list (snd kv) \<and> truthy (snd kv) \<and> canonical (snd kv))
          (store_key vals k nd)"
  proof (cases "map_of vals k")
    case None
    then show ?thesis using Cons.prems by (simp add: store_key_def)
  next
    case (Some v)
    show ?thesis
    proof (cases "truthy v")
      case False
      then show ?thesis using Cons.prems Some by (simp add: store_key_def)
    next
      case True
      note a = assms [OF Some True]
      show ?thesis
      proof (cases "is_list v")
        case True
        then show ?thesis
          using Cons.prems Some \<open>truthy v\<close> a by (simp add: store_key_def list_all_update)
      next
        case False
        then have "is_dict v" using a by simp
        then show ?thesis
          using Cons.prems Some \<open>truthy v\<close> a False by (simp add: store_key_def list_all_update)
      qed
    qed
  qed
  then show ?case
    using Cons.IH by simp
qed

lemma no_blank_canonical: "no_blank_leaf x \<Longrightarrow> canonical (normalize_dict x)"
proof (induction x rule: normalize_dict.induct)
  case (1 kvs)
  let ?vals = "map (\<lambda>(key, v). (key, normalize_dict v)) kvs"
  have ok: "canonical w \<and> (is_dict w \<or> is_list w)"
    if "map_of ?vals k = Some w" and "truthy w" for k w
  proof -
    from that(1) have "(k, w) \<in> set ?vals" by (rule map_of_SomeD)
    then obtain y where m: "(k, y) \<in> set kvs" and w: "w = normalize_dict y"
      by auto
    have "no_blank_leaf y"
      using "1.prems" m by (auto simp: list_all_iff)
    then have "canonical (normalize_dict y)"
      by (rule "1.IH" [OF m refl])
    then have "canonical w"
      by (simp add: w)
    then show ?thesis
      using normalize_dict_shape [of y] w by simp
  qed
  have s: "sorted (map (\<lambda>k. (length k, k)) (sorted_keys kvs))"
    by (simp add: sorted_keys_def)
  have k: "sorted (map (\<lambda>k. (length k, k)) (map fst (fold (store_key ?vals) (sorted_keys kvs) []))) \<and>
           distinct (map fst (fold (store_key ?vals) (sorted_keys kvs) []))"
    by (rule fold_store_keys [OF s]) simp_all
  have v: "list_all (\<lambda>kv. is_list (snd kv) \<and> truthy (snd kv) \<and> canonical (snd kv))
             (fold (store_key ?vals) (sorted_keys kvs) [])"
    by (rule fold_store_values) (use ok in simp_all)
  show ?case
    using k v by (simp add: Let_def)
next
  case (2 xs)
  show ?case
  proof (cases "list_all is_dict xs")
    case True
    have "is_dict (normalize_dict x) \<and> canonical (normalize_dict x)" if "x \<in> set xs" for x
      using that True "2.prems" "2.IH" [OF True that]
      by (auto simp: list_all_iff normalize_dict_of_dict)
    then have "list_all (\<lambda>x. is_dict x \<and> truthy x \<and> canonical x) (filter truthy (map normalize_dict xs))"
      by (auto simp: list_all_iff)
    then show ?thesis
      using True by simp
  next
    case False
    show ?thesis
      unfolding scalar_branch [OF False] canonical.simps
      using scalar_branch_trimmed [of xs] by blast
  qed
next
  case (3 v)
  then show ?case by (simp add: strip_idem)
qed

text \<open>
  Claim C3, as the code has it. \<open>normalize_dict\<close> is idempotent on every tree in which
  no scalar that it reaches as the root or as the value of a key is blank (empty after
  \<open>str\<close> and \<open>strip\<close>): on such a tree the result is canonical, and \<open>normalize_dict\<close>
  leaves every canonical tree as it is.
\<close>

theorem C3_idempotent_without_blank:
  "no_blank_leaf x \<Longrightarrow> normalize_dict (normalize_dict x) = normalize_dict x"
  by (rule canonical_fixed) (rule no_blank_canonical)


theorem C3_idempotent_without_blank_witness:
  "no_blank_leaf (TDict [(ascii ''bb'', Scalar (SInt 5)),
      (ascii ''a'', TDict [(ascii ''c'', Scalar (SStr (ascii '' x '')))])]) \<and>
   normalize_dict (normalize_dict (TDict [(ascii ''bb'', Scalar (SInt 5)),
      (ascii ''a'', TDict [(ascii ''c'', Scalar (SStr (ascii '' x '')))])])) =
   normalize_dict (TDict [(ascii ''bb'', Scalar (SInt 5)),
      (ascii ''a'', TDict [(ascii ''c'', Scalar (SStr (ascii '' x '')))])])"
proof -
  have h: "no_blank_leaf (TDict [(ascii ''bb'', Scalar (SInt 5)),
      (ascii ''a'', TDict [(ascii ''c'', Scalar (SStr (ascii '' x '')))])])"
    by (simp add: ascii_def strip_def lstrip_def rstrip_def isspace_def digits10.simps)
  show ?thesis
    by (intro conjI h C3_idempotent_without_blank [OF h])
qed

text \<open>
  The claim as the specification words it fails: \<open>{"a": ""}\<close> is normalized to
  \<open>{"a": [""]}\<close>, the last branch keeping the empty string, and that to \<open>{}\<close>, the list
  branch dropping it.
\<close>

theorem C3_counterexample:
  "normalize_dict (TDict [(ascii ''a'', Scalar (SStr []))]) =
     TDict [(ascii ''a'', TList [Scalar (SStr [])])] \<and>
   normalize_dict (TDict [(ascii ''a'', TList [Scalar (SStr [])])]) = TDict [] \<and>
   normalize_dict (normalize_dict (TDict [(ascii ''a'', Scalar (SStr []))])) \<noteq>
     normalize_dict (TDict [(ascii ''a'', Scalar (SStr []))])"
  by (simp add: sorted_keys_def store_key_def ascii_def strip_def lstrip_def rstrip_def Let_def)

section \<open>The cross-dataset average\<close>

lemma main_summary_avg:
  "1 < length all_results \<Longrightarrow>
     map_option average_f1_score (main_summary all_results) =
       Some (sum_list (map (\<lambda>r. f1_score (snd r)) all_results) / real (length all_results))"
  by (simp add: main_summary_def Let_def)

lemma main_summary_depends_on_f1:
  assumes "map (\<lambda>r. f1_score (snd r)) rs = map (\<lambda>r. f1_score (snd r)) rs'"
  shows "map_option average_f1_score (main_summary rs) =
         map_option average_f1_score (main_summary rs')"
proof -
  have l: "length rs = length rs'"
    using assms by (rule map_eq_imp_length_eq)
  show ?thesis
    using assms l by (simp add: main_summary_def Let_def)
qed

text \<open>
  Claim C8. When more than one dataset has been evaluated, \<open>main\<close> reports as
  \<open>average_f1_score\<close> the sum of the F1 scores of the datasets divided by their number.
  The average depends on the list of these scores only, not on the document counts of
  the datasets; for the scores 1.0 and 0.0 it is 0.5 whatever the counts are.
\<close>

theorem C8_average_f1:
  "(1 < length all_results \<longrightarrow>
      map_option average_f1_score (main_summary all_results) =
        Some (sum_list (map (\<lambda>r. f1_score (snd r)) all_results) / real (length all_results)) \<and>
      map_option num_datasets (main_summary all_results) = Some (length all_results)) \<and>
   (map (\<lambda>r. f1_score (snd r)) all_results = map (\<lambda>r. f1_score (snd r)) other_results \<longrightarrow>
      map_option average_f1_score (main_summary all_results) =
      map_option average_f1_score (main_summary other_results)) \<and>
   map_option average_f1_score (main_summary
      [(d1, \<lparr>f1_score = 1, total_predictions = p1, total_ground_truth = g1, matched_samples = m1\<rparr>),
       (d2, \<lparr>f1_score = 0, total_predictions = p2, total_ground_truth = g2, matched_samples = m2\<rparr>)])
     = Some (1 / 2)"
proof -
  have a: "1 < length all_results \<Longrightarrow>
      map_option num_datasets (main_summary all_results) = Some (length all_results)"
    by (simp add: main_summary_def Let_def)
  have c: "map_option average_f1_score (main_summary
      [(d1, \<lparr>f1_score = 1, total_predictions = p1, total_ground_truth = g1, matched_samples = m1\<rparr>),
       (d2, \<lparr>f1_score = 0, total_predictions = p2, total_ground_truth = g2, matched_samples = m2\<rparr>)])
     = Some (1 / 2)"
    by (simp add: main_summary_def Let_def)
  show ?thesis
    using main_summary_avg [of all_results] a
      main_summary_depends_on_f1 [of all_results other_results] c
    by blast
qed

theorem C8_average_f1_witness:
  "1 < length [(ascii ''d1'', \<lparr>f1_score = 1, total_predictions = 10, total_ground_truth = 10,
                   matched_samples = 10\<rparr>),
               (ascii ''d2'', \<lparr>f1_score = 0, total_predictions = 1000, total_ground_truth = 1000,
                   matched_samples = 1000\<rparr>)] \<and>
   map_option average_f1_score (main_summary
      [(ascii ''d1'', \<lparr>f1_score = 1, total_predictions = 10, total_ground_truth = 10,
                   matched_samples = 10\<rparr>),
       (ascii ''d2'', \<lparr>f1_score = 0, total_predictions = 1000, total_ground_truth = 1000,
                   matched_samples = 1000\<rparr>)]) = Some (1 / 2)"
proof -
  have h: "1 < length [(ascii ''d1'', \<lparr>f1_score = 1 :: real, total_predictions = 10 :: nat,
                   total_ground_truth = 10 :: nat, matched_samples = 10 :: nat\<rparr>),
               (ascii ''d2'', \<lparr>f1_score = 0, total_predictions = 1000, total_ground_truth = 1000,
                   matched_samples = 1000\<rparr>)]"
    by simp
  note c = C8_average_f1 [of "[(ascii ''d1'', \<lparr>f1_score = 1, total_predictions = 10,
                   total_ground_truth = 10, matched_samples = 10\<rparr>),
               (ascii ''d2'', \<lparr>f1_score = 0, total_predictions = 1000, total_ground_truth = 1000,
                   matched_samples = 1000\<rparr>)]", THEN conjunct1, THEN mp, OF h, THEN conjunct1]
  show ?thesis
    using h c by simp
qed

section \<open>Which records are loaded\<close>

lemma key_neq:
  "ascii ''error'' \<noteq> ascii ''url''" "ascii ''error'' \<noteq> ascii ''dataset''"
  "ascii ''error'' \<noteq> ascii ''model_result''"
  "ascii ''url'' \<noteq> ascii ''error''" "ascii ''dataset'' \<noteq> ascii ''error''"
  "ascii ''model_result'' \<noteq> ascii ''error''"
  by (simp_all add: ascii_def)

lemma store_result_kept:
  "(store_result dataset image_name found \<noteq> Skip) =
     ((\<exists>m. found = Some m \<and> m \<noteq> Scalar SNone \<and> has_parse_error m = Some False) \<and>
      \<not> is_dict dataset \<and> \<not> is_list dataset)"
  by (auto simp: store_result_def
      split: option.splits tree.splits scalar.splits bool.splits if_splits)

lemma store_result_Keep:
  "store_result dataset image_name found = Keep d i m \<Longrightarrow>
     d = dataset \<and> i = image_name \<and> found = Some m"
  by (auto simp: store_result_def
      split: option.splits tree.splits scalar.splits bool.splits if_splits)

text \<open>A record whose warning, if it has one, can be printed.\<close>

lemma load_record_printed:
  assumes "\<And>err u. map_of kvs (ascii ''error'') = Some err \<Longrightarrow>
             map_of kvs (ascii ''url'') = Some (Scalar (SStr u)) \<Longrightarrow>
             prints (py_get kvs (ascii ''dataset'') (Scalar (SStr (ascii ''unknown''))))
               (extract_image_name u) err"
  shows "load_record prints (TDict kvs) =
     (case py_get kvs (ascii ''url'') (Scalar (SStr [])) of
        Scalar (SStr u) \<Rightarrow>
          if u = [] then Skip
          else store_result (py_get kvs (ascii ''dataset'') (Scalar (SStr (ascii ''unknown''))))
                 (extract_image_name u) (map_of kvs (ascii ''model_result''))
      | _ \<Rightarrow> Skip)"
proof (cases "py_get kvs (ascii ''url'') (Scalar (SStr []))")
  case (Scalar v)
  show ?thesis
  proof (cases v)
    case (SStr u)
    show ?thesis
    proof (cases "u = []")
      case True
      then show ?thesis
        using Scalar SStr by (simp add: load_record_def Let_def)
    next
      case False
      then have m: "map_of kvs (ascii ''url'') = Some (Scalar (SStr u))"
        using Scalar SStr by (auto simp: py_get_def split: option.splits)
      show ?thesis
      proof (cases "map_of kvs (ascii ''error'')")
        case None
        then show ?thesis
          using Scalar SStr False by (simp add: load_record_def Let_def)
      next
        case (Some err)
        note p = assms [OF Some m]
        show ?thesis
          using Scalar SStr False Some p by (simp add: load_record_def Let_def)
      qed
    qed
  qed (use Scalar in \<open>simp_all add: load_record_def Let_def\<close>)
qed (simp_all add: load_record_def Let_def)

lemma py_get_delete:
  "k \<noteq> k' \<Longrightarrow> py_get (AList.delete k kvs) k' d = py_get kvs k' d"
  by (simp add: py_get_def delete_conv')

lemma load_record_without_error:
  "load_record prints (TDict (AList.delete (ascii ''error'') kvs)) =
     (case py_get kvs (ascii ''url'') (Scalar (SStr [])) of
        Scalar (SStr u) \<Rightarrow>
          if u = [] then Skip
          else store_result (py_get kvs (ascii ''dataset'') (Scalar (SStr (ascii ''unknown''))))
                 (extract_image_name u) (map_of kvs (ascii ''model_result''))
      | _ \<Rightarrow> Skip)"
proof -
  have e: "map_of (AList.delete (ascii ''error'') kvs) (ascii ''error'') = None"
    by (simp add: delete_conv')
  have m: "map_of (AList.delete (ascii ''error'') kvs) (ascii ''model_result'') =
           map_of kvs (ascii ''model_result'')"
    by (simp add: delete_conv' key_neq)
  have "load_record prints (TDict (AList.delete (ascii ''error'') kvs)) =
     (case py_get (AList.delete (ascii ''error'') kvs) (ascii ''url'') (Scalar (SStr [])) of
        Scalar (SStr u) \<Rightarrow>
          if u = [] then Skip
          else store_result
                 (py_get (AList.delete (ascii ''error'') kvs) (ascii ''dataset'')
                    (Scalar (SStr (ascii ''unknown''))))
                 (extract_image_name u)
                 (map_of (AList.delete (ascii ''error'') kvs) (ascii ''model_result''))
      | _ \<Rightarrow> Skip)"
    by (rule load_record_printed) (simp add: e)
  then show ?thesis
    unfolding m py_get_delete [OF key_neq(1)] py_get_delete [OF key_neq(2)] .
qed

lemma load_record_kept:
  assumes "\<And>err u. map_of kvs (ascii ''error'') = Some err \<Longrightarrow>
             map_of kvs (ascii ''url'') = Some (Scalar (SStr u)) \<Longrightarrow>
             prints (py_get kvs (ascii ''dataset'') (Scalar (SStr (ascii ''unknown''))))
               (extract_image_name u) err"
  shows "(load_record prints (TDict kvs) \<noteq> Skip) =
     ((\<exists>u. map_of kvs (ascii ''url'') = Some (Scalar (SStr u)) \<and> u \<noteq> []) \<and>
      (\<exists>m. map_of kvs (ascii ''model_result'') = Some m \<and> m \<noteq> Scalar SNone \<and>
           has_parse_error m = Some False) \<and>
      (case map_of kvs (ascii ''dataset'') of None \<Rightarrow> True | Some d \<Rightarrow> \<not> is_dict d \<and> \<not> is_list d))"
proof -
  have e: "load_record prints (TDict kvs) =
     (case py_get kvs (ascii ''url'') (Scalar (SStr [])) of
        Scalar (SStr u) \<Rightarrow>
          if u = [] then Skip
          else store_result (py_get kvs (ascii ''dataset'') (Scalar (SStr (ascii ''unknown''))))
                 (extract_image_name u) (map_of kvs (ascii ''model_result''))
      | _ \<Rightarrow> Skip)"
    by (rule load_record_printed) (rule assms)
  show ?thesis
    unfolding e
    by (auto simp: store_result_kept py_get_def
        split: option.splits tree.splits scalar.splits if_splits)
qed

lemma load_record_Keep:
  assumes "load_record prints (TDict kvs) = Keep d i m"
  shows "(\<exists>u. map_of kvs (ascii ''url'') = Some (Scalar (SStr u)) \<and> u \<noteq> [] \<and>
          i = extract_image_name u) \<and>
     map_of kvs (ascii ''model_result'') = Some m \<and>
     d = py_get kvs (ascii ''dataset'') (Scalar (SStr (ascii ''unknown'')))"
  using assms
  by (auto simp: load_record_def Let_def py_get_def dest!: store_result_Keep
      split: option.splits tree.splits scalar.splits if_splits)

lemma extract_image_name_prefix: "extract_image_name (ascii ''images/'' @ n) = n"
  by (simp add: extract_image_name_def starts_with_def ascii_def)

lemma extract_image_name_other:
  "\<not> starts_with (ascii ''images/'') u \<Longrightarrow> extract_image_name u = u"
  by (simp add: extract_image_name_def)

lemma load_record_typed:
  assumes "\<And>err u. map_of kvs (ascii ''error'') = Some err \<Longrightarrow>
             map_of kvs (ascii ''url'') = Some (Scalar (SStr u)) \<Longrightarrow>
             prints (py_get kvs (ascii ''dataset'') (Scalar (SStr (ascii ''unknown''))))
               (extract_image_name u) err"
    and "map_of kvs (ascii ''url'') = Some (Scalar (SStr u))" and "u \<noteq> []"
    and "map_of kvs (ascii ''dataset'') = None \<or> (\<exists>d. map_of kvs (ascii ''dataset'') = Some (Scalar d))"
    and "map_of kvs (ascii ''model_result'') = None \<or>
         map_of kvs (ascii ''model_result'') = Some (Scalar SNone) \<or>
         (\<exists>m. map_of kvs (ascii ''model_result'') = Some (TDict m))"
  shows "(load_record prints (TDict kvs) = Skip) =
           (map_of kvs (ascii ''model_result'') = None \<or>
            map_of kvs (ascii ''model_result'') = Some (Scalar SNone) \<or>
            (\<exists>m. map_of kvs (ascii ''model_result'') = Some (TDict m) \<and>
                 ascii ''_parse_error'' \<in> fst ` set m))"
proof -
  have k: "(load_record prints (TDict kvs) \<noteq> Skip) =
     ((\<exists>u. map_of kvs (ascii ''url'') = Some (Scalar (SStr u)) \<and> u \<noteq> []) \<and>
      (\<exists>m. map_of kvs (ascii ''model_result'') = Some m \<and> m \<noteq> Scalar SNone \<and>
           has_parse_error m = Some False) \<and>
      (case map_of kvs (ascii ''dataset'') of None \<Rightarrow> True | Some d \<Rightarrow> \<not> is_dict d \<and> \<not> is_list d))"
    by (rule load_record_kept) (rule assms(1))
  show ?thesis
    using assms(2-5) k by (force split: option.splits)
qed

text \<open>
  Claim C10, as the code has it by design, for the records whose warning about an
  \<open>error\<close> field (if they have that field) can be written to standard output. For such
  a record the \<open>error\<close> field changes nothing: the record is treated as the same record
  without the field. It is retained exactly when its \<open>url\<close> is a non-empty string, its
  \<open>model_result\<close> is present, not \<open>None\<close>, and passes the test
  \<open>"_parse_error" in model_result\<close> with the answer no, and its \<open>dataset\<close> can be a key.
  So among these records, those with a non-empty \<open>url\<close> string, a scalar or absent
  \<open>dataset\<close> and a \<open>model_result\<close> that is a map, \<open>None\<close> or absent are excluded exactly
  when the \<open>model_result\<close> is absent or \<open>None\<close> or has the key \<open>_parse_error\<close>; a record
  whose \<open>url\<close> is missing or empty is excluded whatever its \<open>model_result\<close> is. The
  document key of a retained record is its \<open>url\<close> without one leading \<open>images/\<close>.
\<close>

theorem C10_record_retention:
  assumes "\<And>err u. map_of kvs (ascii ''error'') = Some err \<Longrightarrow>
             map_of kvs (ascii ''url'') = Some (Scalar (SStr u)) \<Longrightarrow>
             prints (py_get kvs (ascii ''dataset'') (Scalar (SStr (ascii ''unknown''))))
               (extract_image_name u) err"
  shows
  "load_record prints (TDict kvs) =
     load_record prints (TDict (AList.delete (ascii ''error'') kvs)) \<and>
   (load_record prints (TDict kvs) \<noteq> Skip) =
     ((\<exists>u. map_of kvs (ascii ''url'') = Some (Scalar (SStr u)) \<and> u \<noteq> []) \<and>
      (\<exists>m. map_of kvs (ascii ''model_result'') = Some m \<and> m \<noteq> Scalar SNone \<and>
           has_parse_error m = Some False) \<and>
      (case map_of kvs (ascii ''dataset'') of None \<Rightarrow> True | Some d \<Rightarrow> \<not> is_dict d \<and> \<not> is_list d)) \<and>
   (map_of kvs (ascii ''url'') = Some (Scalar (SStr url)) \<and> url \<noteq> [] \<and>
    (map_of kvs (ascii ''dataset'') = None \<or>
       (\<exists>d. map_of kvs (ascii ''dataset'') = Some (Scalar d))) \<and>
    (map_of kvs (ascii ''model_result'') = None \<or>
     map_of kvs (ascii ''model_result'') = Some (Scalar SNone) \<or>
       (\<exists>m. map_of kvs (ascii ''model_result'') = Some (TDict m))) \<longrightarrow>
    (load_record prints (TDict kvs) = Skip) =
      (map_of kvs (ascii ''model_result'') = None \<or>
       map_of kvs (ascii ''model_result'') = Some (Scalar SNone) \<or>
       (\<exists>m. map_of kvs (ascii ''model_result'') = Some (TDict m) \<and>
            ascii ''_parse_error'' \<in> fst ` set m))) \<and>
   (load_record prints (TDict kvs) = Keep dataset image_name model_result \<longrightarrow>
      (\<exists>u. map_of kvs (ascii ''url'') = Some (Scalar (SStr u)) \<and> u \<noteq> [] \<and>
           image_name = extract_image_name u) \<and>
      map_of kvs (ascii ''model_result'') = Some model_result) \<and>
   extract_image_name (ascii ''images/'' @ name) = name \<and>
   (\<not> starts_with (ascii ''images/'') other \<longrightarrow> extract_image_name other = other)"
proof -
  have p: "load_record prints (TDict kvs) =
     (case py_get kvs (ascii ''url'') (Scalar (SStr [])) of
        Scalar (SStr u) \<Rightarrow>
          if u = [] then Skip
          else store_result (py_get kvs (ascii ''dataset'') (Scalar (SStr (ascii ''unknown''))))
                 (extract_image_name u) (map_of kvs (ascii ''model_result''))
      | _ \<Rightarrow> Skip)"
    by (rule load_record_printed) (rule assms)
  have a: "load_record prints (TDict kvs) =
     load_record prints (TDict (AList.delete (ascii ''error'') kvs))"
    unfolding p load_record_without_error by (rule refl)
  have b: "(load_record prints (TDict kvs) \<noteq> Skip) =
     ((\<exists>u. map_of kvs (ascii ''url'') = Some (Scalar (SStr u)) \<and> u \<noteq> []) \<and>
      (\<exists>m. map_of kvs (ascii ''model_result'') = Some m \<and> m \<noteq> Scalar SNone \<and>
           has_parse_error m = Some False) \<and>
      (case map_of kvs (ascii ''dataset'') of None \<Rightarrow> True | Some d \<Rightarrow> \<not> is_dict d \<and> \<not> is_list d))"
    by (rule load_record_kept) (rule assms)
  have c: "map_of kvs (ascii ''url'') = Some (Scalar (SStr url)) \<and> url \<noteq> [] \<and>
    (map_of kvs (ascii ''dataset'') = None \<or>
       (\<exists>d. map_of kvs (ascii ''dataset'') = Some (Scalar d))) \<and>
    (map_of kvs (ascii ''model_result'') = None \<or>
     map_of kvs (ascii ''model_result'') = Some (Scalar SNone) \<or>
       (\<exists>m. map_of kvs (ascii ''model_result'') = Some (TDict m))) \<longrightarrow>
    (load_record prints (TDict kvs) = Skip) =
      (map_of kvs (ascii ''model_result'') = None \<or>
       map_of kvs (ascii ''model_result'') = Some (Scalar SNone) \<or>
       (\<exists>m. map_of kvs (ascii ''model_result'') = Some (TDict m) \<and>
            ascii ''_parse_error'' \<in> fst ` set m))"
  proof (intro impI, elim conjE)
    assume u: "map_of kvs (ascii ''url'') = Some (Scalar (SStr url))" "url \<noteq> []"
      and d: "map_of kvs (ascii ''dataset'') = None \<or>
              (\<exists>d. map_of kvs (ascii ''dataset'') = Some (Scalar d))"
      and m: "map_of kvs (ascii ''model_result'') = None \<or>
              map_of kvs (ascii ''model_result'') = Some (Scalar SNone) \<or>
              (\<exists>m. map_of kvs (ascii ''model_result'') = Some (TDict m))"
    show "(load_record prints (TDict kvs) = Skip) =
      (map_of kvs (ascii ''model_result'') = None \<or>
       map_of kvs (ascii ''model_result'') = Some (Scalar SNone) \<or>
       (\<exists>m. map_of kvs (ascii ''model_result'') = Some (TDict m) \<and>
            ascii ''_parse_error'' \<in> fst ` set m))"
      by (rule load_record_typed [where kvs = kvs and prints = prints and u = url, OF assms u d m])
  qed
  have d: "load_record prints (TDict kvs) = Keep dataset image_name model_result \<longrightarrow>
      (\<exists>u. map_of kvs (ascii ''url'') = Some (Scalar (SStr u)) \<and> u \<noteq> [] \<and>
           image_name = extract_image_name u) \<and>
      map_of kvs (ascii ''model_result'') = Some model_result"
    using load_record_Keep [of prints kvs dataset image_name model_result] by blast
  note f = extract_image_name_prefix [of name]
  have g: "\<not> starts_with (ascii ''images/'') other \<longrightarrow> extract_image_name other = other"
    by (simp add: extract_image_name_other)
  show ?thesis
    by (intro conjI a b c d f g)
qed

lemmas loader_defs =
  load_record_def store_result_def py_get_def utf8_prints_def surrogate_def
  extract_image_name_def starts_with_def ascii_def Let_def

lemma load_record_sample:
  "load_record utf8_prints
     (TDict [(ascii ''url'', Scalar (SStr (ascii ''images/a.png''))),
             (ascii ''error'', Scalar (SStr (ascii ''e''))),
             (ascii ''model_result'', TDict [(ascii ''a'', Scalar (SInt 1))])]) =
   Keep (Scalar (SStr (ascii ''unknown''))) (ascii ''a.png'')
        (TDict [(ascii ''a'', Scalar (SInt 1))])"
  by (simp add: loader_defs)

theorem C10_record_retention_witness:
  "utf8_prints (Scalar (SStr (ascii ''unknown''))) (ascii ''a.png'') (Scalar (SStr (ascii ''e''))) \<and>
   load_record utf8_prints
     (TDict [(ascii ''url'', Scalar (SStr (ascii ''images/a.png''))),
             (ascii ''error'', Scalar (SStr (ascii ''e''))),
             (ascii ''model_result'', TDict [(ascii ''a'', Scalar (SInt 1))])]) =
   load_record utf8_prints
     (TDict (AList.delete (ascii ''error'')
            [(ascii ''url'', Scalar (SStr (ascii ''images/a.png''))),
             (ascii ''error'', Scalar (SStr (ascii ''e''))),
             (ascii ''model_result'', TDict [(ascii ''a'', Scalar (SInt 1))])])) \<and>
   load_record utf8_prints
     (TDict [(ascii ''url'', Scalar (SStr (ascii ''images/a.png''))),
             (ascii ''error'', Scalar (SStr (ascii ''e''))),
             (ascii ''model_result'', TDict [(ascii ''a'', Scalar (SInt 1))])]) =
   Keep (Scalar (SStr (ascii ''unknown''))) (ascii ''a.png'')
        (TDict [(ascii ''a'', Scalar (SInt 1))])"
proof -
  have p: "utf8_prints (Scalar (SStr (ascii ''unknown''))) (ascii ''a.png'')
             (Scalar (SStr (ascii ''e'')))"
    by (simp add: utf8_prints_def surrogate_def ascii_def)
  have w: "utf8_prints
             (py_get [(ascii ''url'', Scalar (SStr (ascii ''images/a.png''))),
                      (ascii ''error'', Scalar (SStr (ascii ''e''))),
                      (ascii ''model_result'', TDict [(ascii ''a'', Scalar (SInt 1))])]
                (ascii ''dataset'') (Scalar (SStr (ascii ''unknown''))))
             (extract_image_name u) err"
    if "map_of [(ascii ''url'', Scalar (SStr (ascii ''images/a.png''))),
                (ascii ''error'', Scalar (SStr (ascii ''e''))),
                (ascii ''model_result'', TDict [(ascii ''a'', Scalar (SInt 1))])]
          (ascii ''error'') = Some err"
      and "map_of [(ascii ''url'', Scalar (SStr (ascii ''images/a.png''))),
                (ascii ''error'', Scalar (SStr (ascii ''e''))),
                (ascii ''model_result'', TDict [(ascii ''a'', Scalar (SInt 1))])]
          (ascii ''url'') = Some (Scalar (SStr u))"
    for err u
  proof -
    have "err = Scalar (SStr (ascii ''e''))" and "u = ascii ''images/a.png''"
      using that by (simp_all add: ascii_def)
    then show ?thesis
      by (simp add: loader_defs)
  qed
  note c = C10_record_retention
    [where prints = utf8_prints
       and kvs = "[(ascii ''url'', Scalar (SStr (ascii ''images/a.png''))),
                   (ascii ''error'', Scalar (SStr (ascii ''e''))),
                   (ascii ''model_result'', TDict [(ascii ''a'', Scalar (SInt 1))])]",
     OF w, THEN conjunct1]
  show ?thesis
    by (intro conjI p c load_record_sample)
qed

text \<open>
  The claim as the specification words it fails. A record without \<open>url\<close> is excluded
  although its \<open>model_result\<close> is present and has no \<open>_parse_error\<close> key: the guard of
  lines 42 to 44. And an \<open>error\<close> field alone can exclude a record: on a UTF-8 standard
  output the warning for an \<open>error\<close> text that holds a lone surrogate (\<open>"\ud800"\<close> in
  the JSON line) cannot be printed, and the record is skipped, while the same record
  without the field is retained.
\<close>

theorem C10_counterexample:
  "map_of [(ascii ''dataset'', Scalar (SStr (ascii ''d''))),
           (ascii ''model_result'', TDict [(ascii ''a'', Scalar (SInt 1))])]
     (ascii ''model_result'') = Some (TDict [(ascii ''a'', Scalar (SInt 1))]) \<and>
   ascii ''_parse_error'' \<notin> fst ` set [(ascii ''a'', Scalar (SInt 1))] \<and>
   load_record utf8_prints
     (TDict [(ascii ''dataset'', Scalar (SStr (ascii ''d''))),
             (ascii ''model_result'', TDict [(ascii ''a'', Scalar (SInt 1))])]) = Skip \<and>
   load_record utf8_prints
     (TDict [(ascii ''url'', Scalar (SStr (ascii ''a.png''))),
             (ascii ''error'', Scalar (SStr [0xD800])),
             (ascii ''model_result'', TDict [(ascii ''a'', Scalar (SInt 1))])]) = Skip \<and>
   load_record utf8_prints
     (TDict [(ascii ''url'', Scalar (SStr (ascii ''a.png''))),
             (ascii ''model_result'', TDict [(ascii ''a'', Scalar (SInt 1))])]) =
     Keep (Scalar (SStr (ascii ''unknown''))) (ascii ''a.png'')
          (TDict [(ascii ''a'', Scalar (SInt 1))])"
  by (simp add: loader_defs)

section \<open>The text normalizer\<close>

lemma set_replace_char: "set (replace_char a b s) \<subseteq> (set s - {a}) \<union> set b"
  by (induction s) (auto simp: replace_char_def)

lemma replace_char_absent: "a \<notin> set s \<Longrightarrow> replace_char a b s = s"
  by (induction s) (auto simp: replace_char_def)

lemma rstrip_chars_prefix: "\<exists>w. s = rstrip_chars chars s @ w"
  unfolding rstrip_chars_def
  by (metis rev_append rev_rev_ident takeWhile_dropWhile_id)

lemma set_rstrip_chars: "set (rstrip_chars chars s) \<subseteq> set s"
  using rstrip_chars_prefix [of s chars] by (metis set_append Un_upper1)

lemma rstrip_chars_fix: "s = [] \<or> last s \<notin> set chars \<Longrightarrow> rstrip_chars chars s = s"
  by (cases s rule: rev_cases) (auto simp: rstrip_chars_def)

text \<open>A code point that the character loop and the four replacements leave alone.\<close>

lemma halfwidth_out:
  "c' \<in> set (halfwidth c) \<Longrightarrow> halfwidth c' = [c']"
  by (auto simp: halfwidth_def split: if_splits)

lemma halfwidth_concat_out:
  "c' \<in> set (concat (map halfwidth t)) \<Longrightarrow> halfwidth c' = [c']"
  by (auto dest: halfwidth_out)

lemma halfwidth_replaced:
  "halfwidth 0x2C = [0x2C]" "halfwidth 0x27 = [0x27]"
  by (simp_all add: halfwidth_def)

lemma fullwidth_to_halfwidth_out:
  assumes "c \<in> set (fullwidth_to_halfwidth t)"
  shows "halfwidth c = [c] \<and> c \<noteq> 0x3001 \<and> c \<noteq> 0x2D \<and> c \<noteq> 0x2013 \<and> c \<noteq> 0x2019"
proof -
  define r0 where "r0 = concat (map halfwidth t)"
  define r1 where "r1 = replace_char 0x3001 [0x2C] r0"
  define r2 where "r2 = replace_char 0x2D [] r1"
  define r3 where "r3 = replace_char 0x2013 [] r2"
  define r4 where "r4 = replace_char 0x2019 [0x27] r3"
  have f: "fullwidth_to_halfwidth t = rstrip_chars [0x3002, 0x2E] r4"
    by (simp add: fullwidth_to_halfwidth_def Let_def r0_def r1_def r2_def r3_def r4_def)
  have s1: "set r1 \<subseteq> (set r0 - {0x3001}) \<union> {0x2C}"
    unfolding r1_def using set_replace_char [of "0x3001" "[0x2C]" r0] by simp
  have s2: "set r2 \<subseteq> set r1 - {0x2D}"
    unfolding r2_def using set_replace_char [of "0x2D" "[]" r1] by simp
  have s3: "set r3 \<subseteq> set r2 - {0x2013}"
    unfolding r3_def using set_replace_char [of "0x2013" "[]" r2] by simp
  have s4: "set r4 \<subseteq> (set r3 - {0x2019}) \<union> {0x27}"
    unfolding r4_def using set_replace_char [of "0x2019" "[0x27]" r3] by simp
  have c4: "c \<in> set r4"
    using assms set_rstrip_chars [of "[0x3002, 0x2E]" r4] by (auto simp: f)
  then have k: "c \<in> set r0 \<or> c = 0x2C \<or> c = 0x27"
    using s1 s2 s3 s4 by blast
  have h: "halfwidth c = [c]"
    using k halfwidth_concat_out [of c t] halfwidth_replaced by (auto simp: r0_def)
  have a1: "0x3001 \<notin> set r1" using s1 by auto
  then have a2: "0x3001 \<notin> set r2" using s2 by auto
  then have a3: "0x3001 \<notin> set r3" using s3 by auto
  then have a4: "0x3001 \<notin> set r4" using s4 by auto
  have b2: "0x2D \<notin> set r2" using s2 by auto
  then have b3: "0x2D \<notin> set r3" using s3 by auto
  then have b4: "0x2D \<notin> set r4" using s4 by auto
  have d3: "0x2013 \<notin> set r3" using s3 by auto
  then have d4: "0x2013 \<notin> set r4" using s4 by auto
  have e4: "0x2019 \<notin> set r4" using s4 by auto
  have n: "c \<noteq> 0x3001 \<and> c \<noteq> 0x2D \<and> c \<noteq> 0x2013 \<and> c \<noteq> 0x2019"
    using c4 a4 b4 d4 e4 by blast
  show ?thesis
    using h n by simp
qed

lemma fullwidth_to_halfwidth_clean:
  assumes "\<And>c. c \<in> set s \<Longrightarrow>
     halfwidth c = [c] \<and> c \<noteq> 0x3001 \<and> c \<noteq> 0x2D \<and> c \<noteq> 0x2013 \<and> c \<noteq> 0x2019"
  shows "fullwidth_to_halfwidth s = rstrip_chars [0x3002, 0x2E] s"
proof -
  have a: "concat (map halfwidth s) = s"
    using assms by (induction s) auto
  have b: "0x3001 \<notin> set s" "0x2D \<notin> set s" "0x2013 \<notin> set s" "0x2019 \<notin> set s"
    using assms by auto
  show ?thesis
    by (simp add: fullwidth_to_halfwidth_def Let_def a replace_char_absent b)
qed

text \<open>The regular expression search returns a part of the text.\<close>

lemma first_some_Some:
  "first_some f xs = Some y \<Longrightarrow> \<exists>x \<in> set xs. f x = Some y"
  by (induction xs) (auto split: option.splits)

lemma set_lazy_group: "lazy_group s = Some g \<Longrightarrow> set g \<subseteq> set s"
  unfolding lazy_group_def
  by (drule first_some_Some) (auto split: if_splits dest: in_set_takeD)

lemma set_after_open: "after_open s = Some g \<Longrightarrow> set g \<subseteq> set s"
  unfolding after_open_def
  by (drule first_some_Some) (auto dest!: set_lazy_group dest: in_set_dropD)

lemma set_re_search_fence: "re_search_fence opening text = Some g \<Longrightarrow> set g \<subseteq> set text"
  unfolding re_search_fence_def
  by (drule first_some_Some) (auto split: if_splits dest!: set_after_open dest: in_set_dropD)

lemma set_strip: "set (strip s) \<subseteq> set s"
proof
  fix c assume "c \<in> set (strip s)"
  then have "c \<in> set (dropWhile isspace (rev (dropWhile isspace s)))"
    by (simp add: strip_def lstrip_def rstrip_def)
  then have "c \<in> set (rev (dropWhile isspace s))"
    by (rule set_dropWhileD)
  then have "c \<in> set (dropWhile isspace s)"
    by simp
  then show "c \<in> set s"
    by (rule set_dropWhileD)
qed

lemma set_remove_unnecessary_spaces:
  "set (remove_unnecessary_spaces text) \<subseteq> set text"
  using set_strip set_re_search_fence
  by (fastforce simp: remove_unnecessary_spaces_def Let_def split: option.splits if_splits)

lemma no_space_remove_unnecessary_spaces:
  "c \<in> set (remove_unnecessary_spaces text) \<Longrightarrow> \<not> isspace c"
  by (simp add: remove_unnecessary_spaces_def Let_def)

text \<open>Substring tests.\<close>

lemma starts_with_append: "starts_with (a @ b) s \<Longrightarrow> starts_with a s"
  unfolding starts_with_def
  by (metis append_eq_conv_conj take_take append_take_drop_id)

lemma contains_append_sub: "contains (a @ b) s \<Longrightarrow> contains a s"
  by (induction s) (auto dest: starts_with_append)

lemma starts_with_extend: "starts_with sub p \<Longrightarrow> starts_with sub (p @ w)"
  unfolding starts_with_def
  by (metis append_assoc append_take_drop_id append_eq_conv_conj)

lemma contains_extend: "contains sub p \<Longrightarrow> contains sub (p @ w)"
proof (induction p)
  case Nil
  then show ?case by (cases w) (simp_all add: starts_with_def)
next
  case (Cons c cs)
  then show ?case
    using starts_with_extend [of sub "c # cs" w] by auto
qed

lemma remove_unnecessary_spaces_plain:
  assumes "\<not> contains fence s" and "\<And>c. c \<in> set s \<Longrightarrow> \<not> isspace c"
  shows "remove_unnecessary_spaces s = s"
proof -
  have "\<not> contains (fence @ ascii ''json'') s"
    using assms(1) contains_append_sub by blast
  moreover have "filter (\<lambda>c. \<not> isspace c) s = s"
    by (rule filter_True) (simp add: assms(2))
  ultimately show ?thesis
    using assms(1) by (simp add: remove_unnecessary_spaces_def Let_def)
qed

lemma normalize_func_twice:
  assumes "\<not> contains fence (normalize_func t)"
  shows "normalize_func (normalize_func t) = rstrip_chars [0x3002, 0x2E] (normalize_func t)"
proof -
  define s where "s = normalize_func t"
  define s' where "s' = rstrip_chars [0x3002, 0x2E] s"
  have sub: "set s \<subseteq> set (fullwidth_to_halfwidth t)"
    unfolding s_def normalize_func_def by (rule set_remove_unnecessary_spaces)
  have clean: "halfwidth c = [c] \<and> c \<noteq> 0x3001 \<and> c \<noteq> 0x2D \<and> c \<noteq> 0x2013 \<and> c \<noteq> 0x2019"
    if "c \<in> set s" for c
    using that sub fullwidth_to_halfwidth_out [of c t] by blast
  have f: "fullwidth_to_halfwidth s = s'"
    unfolding s'_def by (rule fullwidth_to_halfwidth_clean) (rule clean)
  obtain w where w: "s = s' @ w"
    using rstrip_chars_prefix [of s "[0x3002, 0x2E]"] by (auto simp: s'_def)
  have nf: "\<not> contains fence s'"
    using assms contains_extend [of fence s' w] by (auto simp: s_def [symmetric] w)
  have ns: "\<not> isspace c" if "c \<in> set s'" for c
  proof -
    have "c \<in> set s" using that w by simp
    then show ?thesis
      unfolding s_def normalize_func_def by (rule no_space_remove_unnecessary_spaces)
  qed
  have "remove_unnecessary_spaces s' = s'"
    by (rule remove_unnecessary_spaces_plain [OF nf ns])
  then show ?thesis
    by (simp add: normalize_func_def [of s] f s_def [symmetric] s'_def)
qed

lemmas text_defs =
  normalize_func_def fullwidth_to_halfwidth_def halfwidth_def replace_char_def
  rstrip_chars_def remove_unnecessary_spaces_def starts_with_def fence_def ascii_def
  isspace_def Let_def

lemma fence_sample:
  "remove_unnecessary_spaces (fence @ ascii ''json {x: 1} '' @ fence @ ascii '' t'') = ascii ''{x:1}''"
  by (simp add: remove_unnecessary_spaces_def re_search_fence_def after_open_def lazy_group_def
      ws_then_fence_def starts_with_def fence_def ascii_def isspace_def strip_def lstrip_def
      rstrip_def Let_def upt_rec)

text \<open>
  Claim C4, as the code has it. \<open>normalize_func\<close> is a function of its argument alone,
  defined on every string, and its result holds no whitespace. It is idempotent on
  every string whose normalized text holds no code fence \<open>```\<close> and does not end with
  \<open>.\<close> or the ideographic full stop: without a fence in the normalized text, the second
  application does nothing but strip these trailing characters.
\<close>

theorem C4_normalize_func:
  assumes "\<not> contains fence (normalize_func t)"
  shows "normalize_func (normalize_func t) = rstrip_chars [0x3002, 0x2E] (normalize_func t) \<and>
         (normalize_func t = [] \<or> last (normalize_func t) \<notin> set [0x3002, 0x2E] \<longrightarrow>
            normalize_func (normalize_func t) = normalize_func t) \<and>
         list_all (\<lambda>c. \<not> isspace c) (normalize_func t)"
proof -
  note a = normalize_func_twice [OF assms]
  have b: "normalize_func t = [] \<or> last (normalize_func t) \<notin> set [0x3002, 0x2E] \<longrightarrow>
            normalize_func (normalize_func t) = normalize_func t"
    unfolding a by (rule impI) (rule rstrip_chars_fix)
  have c: "list_all (\<lambda>c. \<not> isspace c) (normalize_func t)"
    unfolding list_all_iff normalize_func_def
    by (rule ballI) (rule no_space_remove_unnecessary_spaces)
  show ?thesis
    by (intro conjI a b c)
qed

lemma normalize_func_sample: "normalize_func (ascii ''a b'') = ascii ''ab''"
  by (simp add: text_defs)

theorem C4_normalize_func_witness:
  "\<not> contains fence (normalize_func (ascii ''a b'')) \<and>
   (normalize_func (ascii ''a b'') = [] \<or>
    last (normalize_func (ascii ''a b'')) \<notin> set [0x3002, 0x2E]) \<and>
   normalize_func (normalize_func (ascii ''a b'')) = normalize_func (ascii ''a b'')"
proof -
  have h1: "\<not> contains fence (normalize_func (ascii ''a b''))"
    unfolding normalize_func_sample by (simp add: starts_with_def fence_def ascii_def)
  have h2: "normalize_func (ascii ''a b'') = [] \<or>
            last (normalize_func (ascii ''a b'')) \<notin> set [0x3002, 0x2E]"
    unfolding normalize_func_sample by (simp add: ascii_def)
  note c = C4_normalize_func [OF h1, THEN conjunct2, THEN conjunct1, THEN mp, OF h2]
  show ?thesis
    by (intro conjI h1 h2 c)
qed

text \<open>
  The claim as the specification words it fails: the trailing full stop is stripped
  before the whitespace is removed, so \<open>"a. "\<close> is normalized to \<open>"a."\<close>, and that to
  \<open>"a"\<close>.
\<close>

theorem C4_counterexample:
  "normalize_func (ascii ''a. '') = ascii ''a.'' \<and>
   normalize_func (ascii ''a.'') = ascii ''a'' \<and>
   normalize_func (normalize_func (ascii ''a. '')) \<noteq> normalize_func (ascii ''a. '')"
proof -
  have a: "normalize_func (ascii ''a. '') = ascii ''a.''"
    by (simp add: text_defs)
  have b: "normalize_func (ascii ''a.'') = ascii ''a''"
    by (simp add: text_defs)
  have c: "ascii ''a'' \<noteq> ascii ''a.''"
    by (simp add: ascii_def)
  show ?thesis
    unfolding a b using c by simp
qed

end
